theory Spec2Isabelle
  imports Complex_Main "HOL-Library.List_Lexorder" "HOL-Library.Word"
begin

section \<open>Python values used by the card-sheet printer\<close>

text \<open>
  A Python \<open>str\<close> is a sequence of Unicode code points; it is modelled as a list of
  naturals, so that comparison of two strings is the lexicographic order on code points
  (the order that \<open>list.sort\<close> uses on strings). ASCII literals are written through
  \<open>of_char\<close>.
\<close>

type_synonym pystr = "nat list"

definition py :: "string \<Rightarrow> pystr" where
  "py s = map of_char s"

datatype py_error =
  OSError | IndexError | ValueError | ImageError | DrawError | UnicodeEncodeError

text \<open>
  \<open>str.lower\<close>: the ASCII capitals are mapped to their small letters. Code points
  outside ASCII are left as they are (the Unicode case mapping of the interpreter is
  not part of this development).
\<close>

definition lower_cp :: "nat \<Rightarrow> nat" where
  "lower_cp c = (if 65 \<le> c \<and> c \<le> 90 then c + 32 else c)"

definition lower :: "pystr \<Rightarrow> pystr" where
  "lower s = map lower_cp s"

text \<open>\<open>s.endswith(x)\<close> for one suffix, and for a tuple of suffixes.\<close>

definition endswith1 :: "pystr \<Rightarrow> pystr \<Rightarrow> bool" where
  "endswith1 s x = (length x \<le> length s \<and> drop (length s - length x) s = x)"

definition endswith :: "pystr \<Rightarrow> pystr list \<Rightarrow> bool" where
  "endswith s xs = list_ex (endswith1 s) xs"

text \<open>
  \<open>os.path.join\<close> of two components, as \<open>posixpath\<close> defines it: an absolute second
  component replaces the first; otherwise the components are joined with one slash
  unless the first is empty or already ends in a slash.
\<close>

definition sep :: nat where
  "sep = 47"

definition os_path_join :: "pystr \<Rightarrow> pystr \<Rightarrow> pystr" where
  "os_path_join a b =
     (if b \<noteq> [] \<and> hd b = sep then b
      else if a = [] \<or> last a = sep then a @ b
      else a @ [sep] @ b)"

section \<open>Images and the imaging library\<close>

text \<open>
  A decoded image: its size (width, height) and its pixels, row after row. Channels are
  bytes. \<open>wf_image\<close> says that the pixel buffer has one entry per position.
\<close>

type_synonym byte = "8 word"
type_synonym rgba = "byte \<times> byte \<times> byte \<times> byte"
type_synonym rgb = "byte \<times> byte \<times> byte"

record 'p image =
  isize :: "nat \<times> nat"
  pixels :: "'p list"

definition wf_image :: "'p image \<Rightarrow> bool" where
  "wf_image img = (length (pixels img) = fst (isize img) * snd (isize img))"

definition alpha :: "rgba \<Rightarrow> byte" where
  "alpha p = (case p of (r, g, b, a) \<Rightarrow> a)"

text \<open>\<open>Image.new("RGBA", size, color)\<close>: every pixel has the given colour.\<close>

definition image_new :: "nat \<times> nat \<Rightarrow> rgba \<Rightarrow> rgba image" where
  "image_new sz color = \<lparr>isize = sz, pixels = replicate (fst sz * snd sz) color\<rparr>"

text \<open>
  \<open>Image.alpha_composite(dst, src)\<close> puts \<open>src\<close> over \<open>dst\<close>. The imaging library
  computes each pixel in integers with seven extra bits of precision and rounded
  divisions by 255; a source pixel with alpha 0 leaves the destination pixel. No
  intermediate value reaches \<open>2 ^ 32\<close>, so the unsigned 32-bit arithmetic of the
  library is plain arithmetic on naturals. Images of different sizes are refused
  with a \<open>ValueError\<close>.
\<close>

definition SHIFTFORDIV255 :: "nat \<Rightarrow> nat" where
  "SHIFTFORDIV255 a = ((a div 256) + a) div 256"

definition composite_pixel :: "rgba \<Rightarrow> rgba \<Rightarrow> rgba" where
  "composite_pixel dst src =
     (case dst of (dr, dg, db, da) \<Rightarrow>
      case src of (sr, sg, sb, sa) \<Rightarrow>
        if sa = 0 then dst
        else
          let blend = unat da * (255 - unat sa);
              outa255 = unat sa * 255 + blend;
              coef1 = unat sa * 255 * 255 * 128 div outa255;
              coef2 = 255 * 128 - coef1;
              tmpr = unat sr * coef1 + unat dr * coef2;
              tmpg = unat sg * coef1 + unat dg * coef2;
              tmpb = unat sb * coef1 + unat db * coef2
          in (of_nat (SHIFTFORDIV255 (tmpr + 128 * 128) div 128),
              of_nat (SHIFTFORDIV255 (tmpg + 128 * 128) div 128),
              of_nat (SHIFTFORDIV255 (tmpb + 128 * 128) div 128),
              of_nat (SHIFTFORDIV255 (outa255 + 128))))"

definition alpha_composite :: "rgba image \<Rightarrow> rgba image \<Rightarrow> py_error + rgba image" where
  "alpha_composite dst src =
     (if isize dst \<noteq> isize src then Inl ValueError
      else Inr \<lparr>isize = isize dst,
                pixels = map (\<lambda>(d, s). composite_pixel d s) (zip (pixels dst) (pixels src))\<rparr>)"

text \<open>\<open>convert("RGB")\<close> on an RGBA image drops the alpha channel.\<close>

definition drop_alpha :: "rgba \<Rightarrow> rgb" where
  "drop_alpha p = (case p of (r, g, b, a) \<Rightarrow> (r, g, b))"

definition convert_RGB :: "rgba image \<Rightarrow> rgb image" where
  "convert_RGB img = \<lparr>isize = isize img, pixels = map drop_alpha (pixels img)\<rparr>"

datatype image_reader = ImageReader "rgb image"

section \<open>The environment of a run\<close>

text \<open>
  Everything the program reads from outside is a field of the environment:
  \<^item> \<open>listdir\<close>: \<open>os.listdir\<close>; for a directory it raises or returns the names of
    the entries, in an order the operating system chooses;
  \<^item> \<open>open_rgba\<close>: \<open>Image.open(path)\<close> followed by \<open>convert("RGBA")\<close>; it raises
    (missing, unreadable or corrupt file) or returns the decoded pixels with an alpha
    channel, which is 255 everywhere for a file without transparency;
  \<^item> \<open>draw_raises\<close>: whether \<open>Canvas.drawImage\<close> raises for an image;
  \<^item> \<open>writable\<close>: whether the output file can be written by \<open>Canvas.save\<close>;
  \<^item> \<open>scheduler\<close>: the order in which the workers of the thread pool finish;
  \<^item> \<open>stdout_error\<close>: the exception that writing a string to \<open>sys.stdout\<close> raises,
    if any: a \<open>UnicodeEncodeError\<close> when the encoding of the console lacks one of its
    characters;
  \<^item> \<open>flush_error\<close>: the exception that \<open>sys.stdout.flush()\<close> raises, if any.
\<close>

record env =
  listdir :: "pystr \<Rightarrow> py_error + pystr list"
  open_rgba :: "pystr \<Rightarrow> py_error + rgba image"
  draw_raises :: "image_reader \<Rightarrow> bool"
  writable :: "pystr \<Rightarrow> bool"
  scheduler :: "nat \<Rightarrow> nat"
  stdout_error :: "pystr \<Rightarrow> py_error option"
  flush_error :: "py_error option"

section \<open>The console\<close>

text \<open>
  \<open>sys.stdout.write(s)\<close> appends \<open>s\<close> to what the console has received, or raises.
  \<open>print(s)\<close> writes \<open>s\<close> and then a line feed. \<open>sys.stdout.flush()\<close> leaves what the
  console has received as it is, or raises.
\<close>

definition stdout_write :: "env \<Rightarrow> pystr list \<Rightarrow> pystr \<Rightarrow> py_error + pystr list" where
  "stdout_write env written s =
     (case stdout_error env s of
        Some e \<Rightarrow> Inl e
      | None \<Rightarrow> Inr (written @ [s]))"

definition stdout_flush :: "env \<Rightarrow> pystr list \<Rightarrow> py_error + pystr list" where
  "stdout_flush env written =
     (case flush_error env of
        Some e \<Rightarrow> Inl e
      | None \<Rightarrow> Inr written)"

definition print :: "env \<Rightarrow> pystr list \<Rightarrow> pystr \<Rightarrow> py_error + pystr list" where
  "print env written s =
     (case stdout_write env written s of
        Inl e \<Rightarrow> Inl e
      | Inr written' \<Rightarrow> stdout_write env written' [10])"

text \<open>\<open>str(n)\<close> for a number that is not negative: its decimal digits.\<close>

fun str_nat :: "nat \<Rightarrow> pystr" where
  "str_nat n = (if n < 10 then [48 + n] else str_nat (n div 10) @ [48 + n mod 10])"

declare str_nat.simps [simp del]

text \<open>
  The texts of lines 61, 118, 123 and 136, as code points: the message before the
  loading, the two parts of a progress line around \<open>card_index/total_cards\<close>, the
  message of a page without images (it starts with a carriage return), and the
  message in front of the name of the output file.
\<close>

definition msg_loading :: pystr where
  "msg_loading =
     [0x6B63, 0x5728, 0x5E76, 0x884C, 0x52A0, 0x8F7D, 0x56FE, 0x7247] @ py ''...''"

definition msg_progress_head :: pystr where
  "msg_progress_head = [0x751F, 0x6210, 0x8FDB, 0x5EA6] @ py '': ''"

definition msg_progress_tail :: pystr where
  "msg_progress_tail = py '' '' @ [0x5F20, 0x56FE, 0x7247]"

definition msg_blank :: pystr where
  "msg_blank = [13, 0x751F, 0x6210, 0x7A7A, 0x767D, 0x7F51, 0x683C, 0x9875] @ py ''...''"

definition msg_done :: pystr where
  "msg_done = [0x751F, 0x6210] @ py '' PDF '' @ [0x6587, 0x4EF6, 0xFF1A]"

section \<open>\<open>load_image\<close> (lines 12--26)\<close>

text \<open>
  Any exception inside the \<open>try\<close> block gives \<open>None\<close>; the result is an
  \<open>image_reader option\<close>.
\<close>

definition white :: rgba where
  "white = (255, 255, 255, 255)"

definition load_image :: "env \<Rightarrow> pystr \<Rightarrow> image_reader option" where
  "load_image env path =
     (case open_rgba env path of
        Inl e \<Rightarrow> None
      | Inr img \<Rightarrow>
          (let background = image_new (isize img) white in
           case alpha_composite background img of
             Inl e \<Rightarrow> None
           | Inr composite \<Rightarrow> Some (ImageReader (convert_RGB composite))))"

section \<open>\<open>preload_images\<close> (lines 27--37)\<close>

text \<open>
  \<open>Executor.map\<close> submits one task per input and keeps the futures in the order of
  submission. The workers finish in some order: with \<open>n\<close> tasks pending, the scheduler
  names the one that finishes next (\<open>pick n mod n\<close> among the pending ones), and its
  result is stored in its own future. Reading the results waits for each future in the
  order of submission; a future that is never set would make the call wait for ever,
  which is the value \<open>None\<close> of \<open>those\<close>.
\<close>

primrec completion_order :: "(nat \<Rightarrow> nat) \<Rightarrow> nat \<Rightarrow> nat list \<Rightarrow> nat list" where
  "completion_order pick 0 pending = []"
| "completion_order pick (Suc n) pending =
     (if pending = [] then []
      else let j = pick (Suc n) mod length pending
           in pending ! j # completion_order pick n (take j pending @ drop (Suc j) pending))"

definition executor_map :: "(nat \<Rightarrow> nat) \<Rightarrow> ('a \<Rightarrow> 'b) \<Rightarrow> 'a list \<Rightarrow> 'b list option" where
  "executor_map pick f xs =
     (let futures = replicate (length xs) None;
          filled = fold (\<lambda>i fs. fs[i := Some (f (xs ! i))])
                   (completion_order pick (length xs) [0..<length xs]) futures
      in those filled)"

definition preload_images ::
  "env \<Rightarrow> (nat \<Rightarrow> nat) \<Rightarrow> pystr list \<Rightarrow> (pystr \<times> image_reader option) list option" where
  "preload_images env pick image_paths =
     (case executor_map pick (load_image env) image_paths of
        None \<Rightarrow> None
      | Some readers \<Rightarrow> Some (zip image_paths readers))"

section \<open>Image enumeration (lines 52--56)\<close>

definition supported_extensions :: "pystr list" where
  "supported_extensions = [py ''.jpg'', py ''.jpeg'', py ''.png'', py ''.bmp'', py ''.gif'']"

text \<open>
  The comprehension over \<open>os.listdir\<close> and the sort that follows it. An exception of
  \<open>os.listdir\<close> is not caught.
\<close>

definition list_images :: "env \<Rightarrow> pystr \<Rightarrow> py_error + pystr list" where
  "list_images env image_folder =
     (case listdir env image_folder of
        Inl e \<Rightarrow> Inl e
      | Inr names \<Rightarrow>
          Inr (sort (map (os_path_join image_folder)
                 (filter (\<lambda>f. endswith (lower f) supported_extensions) names))))"

section \<open>The PDF canvas\<close>

text \<open>
  Lengths are in points. The code computes them with floating-point numbers; the
  canvas and the renderer below take lengths as exact rationals, so the positions
  they draw at are the exact ones. The doubles of lines 66--80 are computed apart,
  by the definitions with the suffix \<open>_double\<close>, and compared with the exact lengths.
  \<open>reportlab.lib.units\<close> defines \<open>inch\<close>, \<open>cm\<close> and \<open>mm\<close>, and
  \<open>reportlab.lib.pagesizes\<close> defines \<open>A4\<close>.
\<close>

definition inch :: rat where
  "inch = 72"

definition cm :: rat where
  "cm = inch / (254 / 100)"

definition mm :: rat where
  "mm = cm * (1 / 10)"

definition A4 :: "rat \<times> rat" where
  "A4 = (210 * mm, 297 * mm)"

text \<open>
  The canvas records the drawing operations of the page under construction
  (\<open>code\<close>) and the finished pages (\<open>doc_pages\<close>). \<open>DrawImage img x y w h\<close> is
  \<open>drawImage(img, x, y, width=w, height=h, preserveAspectRatio=True, anchor='c')\<close>;
  \<open>Rect x y w h\<close> is \<open>rect(x, y, w, h, stroke=1, fill=0)\<close>, and stroke 1, fill 0
  are also the defaults of \<open>rect\<close>.
\<close>

datatype draw_op =
    DrawImage image_reader rat rat rat rat
  | Rect rat rat rat rat
  | DrawString rat rat pystr
  | SetLineWidth rat

record canvas =
  filename :: pystr
  code :: "draw_op list"
  doc_pages :: "draw_op list list"

definition Canvas :: "pystr \<Rightarrow> canvas" where
  "Canvas output_filename = \<lparr>filename = output_filename, code = [], doc_pages = []\<rparr>"

definition drawImage ::
  "env \<Rightarrow> canvas \<Rightarrow> image_reader \<Rightarrow> rat \<Rightarrow> rat \<Rightarrow> rat \<Rightarrow> rat \<Rightarrow> py_error + canvas" where
  "drawImage env c img x y w h =
     (if draw_raises env img then Inl DrawError
      else Inr (c\<lparr>code := code c @ [DrawImage img x y w h]\<rparr>))"

definition rect :: "canvas \<Rightarrow> rat \<Rightarrow> rat \<Rightarrow> rat \<Rightarrow> rat \<Rightarrow> canvas" where
  "rect c x y w h = c\<lparr>code := code c @ [Rect x y w h]\<rparr>"

definition drawString :: "canvas \<Rightarrow> rat \<Rightarrow> rat \<Rightarrow> pystr \<Rightarrow> canvas" where
  "drawString c x y s = c\<lparr>code := code c @ [DrawString x y s]\<rparr>"

definition setLineWidth :: "canvas \<Rightarrow> rat \<Rightarrow> canvas" where
  "setLineWidth c w = c\<lparr>code := code c @ [SetLineWidth w]\<rparr>"

definition showPage :: "canvas \<Rightarrow> canvas" where
  "showPage c = c\<lparr>doc_pages := doc_pages c @ [code c], code := []\<rparr>"

text \<open>
  \<open>save\<close> closes a page that still has operations and writes the document; it
  raises when the file cannot be written. The result is the written document.
\<close>

definition save :: "env \<Rightarrow> canvas \<Rightarrow> py_error + draw_op list list" where
  "save env c =
     (let c' = (if code c \<noteq> [] then showPage c else c) in
      if writable env (filename c') then Inr (doc_pages c') else Inl OSError)"

section \<open>\<open>create_pdf_from_folder\<close> (lines 39--136)\<close>

subsection \<open>Layout parameters (lines 65--87)\<close>

definition card_width :: rat where
  "card_width = 59 * mm"

definition card_height :: rat where
  "card_height = 86 * mm"

definition gap :: rat where
  "gap = 2 * mm"

definition columns :: nat where
  "columns = 3"

definition rows :: nat where
  "rows = 3"

definition grid_width :: rat where
  "grid_width = of_nat columns * card_width + of_nat (columns + 1) * gap"

definition grid_height :: rat where
  "grid_height = of_nat rows * card_height + of_nat (rows + 1) * gap"

definition page_width :: rat where
  "page_width = fst A4"

definition page_height :: rat where
  "page_height = snd A4"

definition left_margin :: rat where
  "left_margin = (page_width - grid_width) / 2"

definition bottom_margin :: rat where
  "bottom_margin = (page_height - grid_height) / 2"

definition cards_per_page :: nat where
  "cards_per_page = 9"

definition num_pages :: "nat \<Rightarrow> nat" where
  "num_pages total_cards =
     (if total_cards > 0 then (total_cards + cards_per_page - 1) div cards_per_page else 1)"

subsection \<open>The page loop (lines 89--134)\<close>

text \<open>
  A \<open>for\<close> loop whose body can raise: the first exception ends the loop.
\<close>

fun for_each :: "('a \<Rightarrow> 's \<Rightarrow> py_error + 's) \<Rightarrow> 'a list \<Rightarrow> 's \<Rightarrow> py_error + 's" where
  "for_each body [] s = Inr s"
| "for_each body (x # xs) s =
     (case body x s of Inl e \<Rightarrow> Inl e | Inr s' \<Rightarrow> for_each body xs s')"

text \<open>
  The state of the loops: the canvas, the counter \<open>card_index\<close>, what the console has
  received, and for each progress line written the pair of numbers it shows.
\<close>

record render_state =
  canv :: canvas
  card_index :: nat
  progress :: "(nat \<times> nat) list"
  console :: "pystr list"

text \<open>
  The body of the innermost loop (lines 94--120). The label of lines 110 and 114 is
  written as its six code points. The progress line is written and flushed outside
  the \<open>try\<close> block, so an exception of the console ends the run.
\<close>

definition place_cell ::
  "env \<Rightarrow> (pystr \<times> image_reader option) list \<Rightarrow> nat \<Rightarrow> nat \<Rightarrow> nat \<Rightarrow>
     render_state \<Rightarrow> py_error + render_state" where
  "place_cell env loaded_images total_cards row col st =
     (let cell_x = left_margin + gap + of_nat col * (card_width + gap);
          cell_y = bottom_margin + gap + of_int (int rows - 1 - int row) * (card_height + gap);
          c = canv st
      in
      if card_index st < total_cards then
        (if card_index st < length loaded_images then
           (case loaded_images ! card_index st of (img_path, img_obj) \<Rightarrow>
              let c' =
                (case img_obj of
                   Some img \<Rightarrow>
                     (case drawImage env c img cell_x cell_y card_width card_height of
                        Inr c1 \<Rightarrow> c1
                      | Inl e \<Rightarrow>
                          drawString (rect c cell_x cell_y card_width card_height)
                            (cell_x + 5) (cell_y + card_height / 2)
                            [0x52A0, 0x8F7D, 0x56FE, 0x7247, 0x9519, 0x8BEF])
                 | None \<Rightarrow>
                     drawString (rect c cell_x cell_y card_width card_height)
                       (cell_x + 5) (cell_y + card_height / 2)
                       [0x52A0, 0x8F7D, 0x56FE, 0x7247, 0x9519, 0x8BEF]);
                  card_index' = card_index st + 1;
                  progress_text = msg_progress_head @ str_nat card_index' @ py ''/''
                                  @ str_nat total_cards @ msg_progress_tail
              in
              (case stdout_write env (console st) ([13] @ progress_text) of
                 Inl e \<Rightarrow> Inl e
               | Inr written \<Rightarrow>
                   (case stdout_flush env written of
                      Inl e \<Rightarrow> Inl e
                    | Inr flushed \<Rightarrow>
                        Inr (st\<lparr>canv := c', card_index := card_index',
                                progress := progress st @ [(card_index', total_cards)],
                                console := flushed\<rparr>))))
         else Inl IndexError)
      else Inr st)"

text \<open>The cut guides of one page (lines 126--131).\<close>

definition draw_guides :: "canvas \<Rightarrow> canvas" where
  "draw_guides c =
     fold (\<lambda>v. fold (\<lambda>h c.
             let x_square = left_margin + of_nat v * (card_width + gap);
                 y_square = bottom_margin + of_nat h * (card_height + gap)
             in rect (setLineWidth c (1 / 2)) x_square y_square gap gap)
           [0..<rows + 1])
       [0..<columns + 1] c"

text \<open>The body of the page loop (lines 91--132).\<close>

definition render_page ::
  "env \<Rightarrow> (pystr \<times> image_reader option) list \<Rightarrow> nat \<Rightarrow> nat \<Rightarrow>
     render_state \<Rightarrow> py_error + render_state" where
  "render_page env loaded_images total_cards page st =
     (case for_each (\<lambda>row. for_each (\<lambda>col. place_cell env loaded_images total_cards row col)
                             [0..<columns]) [0..<rows] st of
        Inl e \<Rightarrow> Inl e
      | Inr st' \<Rightarrow>
          (case (if total_cards = 0 then stdout_write env (console st') msg_blank
                 else Inr (console st')) of
             Inl e \<Rightarrow> Inl e
           | Inr written \<Rightarrow>
               Inr (st'\<lparr>canv := showPage (draw_guides (canv st')), console := written\<rparr>)))"

text \<open>
  What a run that returns leaves behind: the document written to the output file, the
  values of \<open>image_paths\<close>, \<open>loaded_images\<close> and \<open>card_index\<close> at the end, the numbers
  of the progress lines, and what the console has received.
\<close>

record outcome =
  out_paths :: "pystr list"
  out_loaded :: "(pystr \<times> image_reader option) list"
  document :: "draw_op list list"
  out_card_index :: nat
  out_progress :: "(nat \<times> nat) list"
  out_console :: "pystr list"

text \<open>
  The whole function. \<open>None\<close>: the call does not return (a load that never
  finishes); \<open>Some (Inl e)\<close>: it raises \<open>e\<close>; \<open>Some (Inr out)\<close>: it returns. The
  two last writes come after \<open>save\<close>: when they raise, the call raises although the
  file is written, and the result is the exception alone.
\<close>

definition create_pdf_from_folder :: "env \<Rightarrow> pystr \<Rightarrow> pystr \<Rightarrow> (py_error + outcome) option" where
  "create_pdf_from_folder env image_folder output_filename =
     (case list_images env image_folder of
        Inl e \<Rightarrow> Some (Inl e)
      | Inr paths \<Rightarrow>
          let total_cards = length paths in
          (case print env [] msg_loading of
             Inl e \<Rightarrow> Some (Inl e)
           | Inr written0 \<Rightarrow>
               (case preload_images env (scheduler env) paths of
                  None \<Rightarrow> None
                | Some loaded \<Rightarrow>
                    let c = Canvas output_filename;
                        st0 = \<lparr>canv = c, card_index = 0, progress = [], console = written0\<rparr>
                    in
                    (case for_each (render_page env loaded total_cards)
                            [0..<num_pages total_cards] st0 of
                       Inl e \<Rightarrow> Some (Inl e)
                     | Inr st \<Rightarrow>
                         (case save env (canv st) of
                            Inl e \<Rightarrow> Some (Inl e)
                          | Inr pages \<Rightarrow>
                              (case stdout_write env (console st) [10] of
                                 Inl e \<Rightarrow> Some (Inl e)
                               | Inr written1 \<Rightarrow>
                                   (case print env written1 (msg_done @ output_filename) of
                                      Inl e \<Rightarrow> Some (Inl e)
                                    | Inr written2 \<Rightarrow>
                                        Some (Inr \<lparr>out_paths = paths, out_loaded = loaded,
                                                   document = pages,
                                                   out_card_index = card_index st,
                                                   out_progress = progress st,
                                                   out_console = written2\<rparr>))))))))"

section \<open>The enumeration in the words of the specification\<close>

text \<open>
  The specification's reading of the enumeration, to be compared with \<open>list_images\<close>:
  the entries whose extension, without regard to case, is one of five, as full paths
  in the order of the file names. An entry has extension \<open>ext\<close> when its name in lower
  case is some stem followed by a dot and \<open>ext\<close>.
\<close>

definition spec_extensions :: "pystr list" where
  "spec_extensions = [py ''jpg'', py ''jpeg'', py ''png'', py ''bmp'', py ''gif'']"

definition spec_has_image_extension :: "pystr \<Rightarrow> bool" where
  "spec_has_image_extension name =
     (\<exists>ext \<in> set spec_extensions. \<exists>stem. lower name = stem @ py ''.'' @ ext)"

definition spec_image_sequence :: "pystr \<Rightarrow> pystr list \<Rightarrow> pystr list" where
  "spec_image_sequence folder names =
     map (os_path_join folder) (sort (filter spec_has_image_extension names))"

text \<open>What \<open>os_path_join\<close> puts in front of a relative name.\<close>

definition dir_prefix :: "pystr \<Rightarrow> pystr" where
  "dir_prefix a = (if a = [] \<or> last a = sep then a else a @ [sep])"

section \<open>The layout in double precision (lines 65--80)\<close>





















section \<open>Describing a rendered page\<close>

text \<open>
  The definitions of this section are not part of the program; they describe its
  output, and the theorems below relate them to \<open>create_pdf_from_folder\<close>.
\<close>

text \<open>The lower-left corner of the cell in a column and a row.\<close>

definition cell_x :: "nat \<Rightarrow> rat" where
  "cell_x col = left_margin + gap + of_nat col * (card_width + gap)"

definition cell_y :: "nat \<Rightarrow> rat" where
  "cell_y row = bottom_margin + gap + of_int (int rows - 1 - int row) * (card_height + gap)"

text \<open>
  The label of a cell whose image cannot be shown, and the outline and the label that
  stand for such an image.
\<close>

definition error_label :: pystr where
  "error_label = [0x52A0, 0x8F7D, 0x56FE, 0x7247, 0x9519, 0x8BEF]"

definition placeholder_ops :: "rat \<Rightarrow> rat \<Rightarrow> draw_op list" where
  "placeholder_ops x y =
     [Rect x y card_width card_height, DrawString (x + 5) (y + card_height / 2) error_label]"

text \<open>What is drawn for one consumed entry in the cell with corner \<open>(x, y)\<close>.\<close>

definition card_ops :: "env \<Rightarrow> image_reader option \<Rightarrow> rat \<Rightarrow> rat \<Rightarrow> draw_op list" where
  "card_ops env img_obj x y =
     (case img_obj of
        None \<Rightarrow> placeholder_ops x y
      | Some img \<Rightarrow>
          if draw_raises env img then placeholder_ops x y
          else [DrawImage img x y card_width card_height])"

text \<open>
  What is drawn for a list of cells visited in order when the next entry to consume
  is number \<open>i\<close>: a cell is blank once the entries are used up.
\<close>

fun cells_ops ::
  "env \<Rightarrow> (pystr \<times> image_reader option) list \<Rightarrow> nat \<Rightarrow> (nat \<times> nat) list \<Rightarrow> draw_op list" where
  "cells_ops env loaded i [] = []"
| "cells_ops env loaded i ((row, col) # cells) =
     (if i < length loaded then card_ops env (snd (loaded ! i)) (cell_x col) (cell_y row) else [])
     @ cells_ops env loaded (Suc i) cells"

text \<open>The cells of a page in the order of the loops: row after row, left to right.\<close>

definition page_cells :: "(nat \<times> nat) list" where
  "page_cells = List.product [0..<rows] [0..<columns]"

text \<open>The cut guides of a page, in the order of the loops.\<close>

definition guide_ops :: "draw_op list" where
  "guide_ops =
     concat (map (\<lambda>(v, h).
               [SetLineWidth (1 / 2),
                Rect (left_margin + of_nat v * (card_width + gap))
                     (bottom_margin + of_nat h * (card_height + gap)) gap gap])
             (List.product [0..<columns + 1] [0..<rows + 1]))"

definition page_ops :: "env \<Rightarrow> (pystr \<times> image_reader option) list \<Rightarrow> nat \<Rightarrow> draw_op list" where
  "page_ops env loaded page =
     cells_ops env loaded (page * cards_per_page) page_cells @ guide_ops"

text \<open>
  The progress line for entry number \<open>k\<close> of \<open>total_cards\<close>, and everything a run with
  \<open>n\<close> images that returns has written to the console.
\<close>

definition progress_line :: "nat \<Rightarrow> nat \<Rightarrow> pystr" where
  "progress_line k total_cards =
     [13] @ msg_progress_head @ str_nat k @ py ''/'' @ str_nat total_cards @ msg_progress_tail"

definition console_messages :: "nat \<Rightarrow> pystr \<Rightarrow> pystr list" where
  "console_messages n output_filename =
     [msg_loading, [10]]
     @ (if n = 0 then [msg_blank] else map (\<lambda>k. progress_line (Suc k) n) [0..<n])
     @ [[10], msg_done @ output_filename, [10]]"

text \<open>
  A console that accepts the messages of a run: flushing raises nothing, and writing
  raises nothing for a string made of the characters of the program's texts, the
  digits, the slash, line feed and carriage return, and the characters of the name of
  the output file.
\<close>

definition console_alphabet :: pystr where
  "console_alphabet =
     msg_loading @ msg_progress_head @ msg_progress_tail @ msg_blank @ msg_done
     @ py ''0123456789/'' @ [10, 13]"

definition console_accepts :: "env \<Rightarrow> pystr \<Rightarrow> bool" where
  "console_accepts env output_filename =
     (flush_error env = None
      \<and> (\<forall>s. set s \<subseteq> set (console_alphabet @ output_filename) \<longrightarrow>
             stdout_error env s = None))"

text \<open>
  The result \<open>r\<close> of a step is \<open>x\<close>, unless the console does not accept the messages and
  the step raises.
\<close>

definition yields :: "bool \<Rightarrow> py_error + 'a \<Rightarrow> 'a \<Rightarrow> bool" where
  "yields accepted r x = (r = Inr x \<or> (\<not> accepted \<and> (\<exists>e. r = Inl e)))"

text \<open>
  Reading a page: the corners of the card rectangles drawn on it (an image box or a
  placeholder outline, both of the size of a card), and the corners of the cut-guide
  squares (the outlines of side \<open>gap\<close>), in the order in which they were drawn.
\<close>

definition card_origins :: "draw_op list \<Rightarrow> (rat \<times> rat) list" where
  "card_origins ops =
     concat (map (\<lambda>op. case op of
                         DrawImage img x y w h \<Rightarrow> [(x, y)]
                       | Rect x y w h \<Rightarrow> if w = card_width \<and> h = card_height then [(x, y)] else []
                       | _ \<Rightarrow> []) ops)"




section \<open>A sample run\<close>

text \<open>
  A folder with four entries, two of them images: \<open>a.jpg\<close> decodes to one opaque
  pixel, \<open>b.PNG\<close> cannot be decoded. The console accepts every string, and the
  output goes to \<open>cards.pdf\<close>.
\<close>

definition dir_example :: "pystr list" where
  "dir_example = [py ''b.PNG'', py ''notes.txt'', py ''a.jpg'', py ''c.gif.bak'']"

definition img_example :: "rgba image" where
  "img_example = \<lparr>isize = (1, 1), pixels = [(10, 20, 30, 255)]\<rparr>"

definition env_example :: env where
  "env_example =
     \<lparr>listdir = (\<lambda>d. if d = py ''cards'' then Inr dir_example else Inl OSError),
      open_rgba = (\<lambda>p. if p = py ''cards/a.jpg'' then Inr img_example else Inl ImageError),
      draw_raises = (\<lambda>img. False),
      writable = (\<lambda>f. True),
      scheduler = (\<lambda>n. 0),
      stdout_error = (\<lambda>s. None),
      flush_error = None\<rparr>"

definition reader_example :: image_reader where
  "reader_example = ImageReader \<lparr>isize = (1, 1), pixels = [(10, 20, 30)]\<rparr>"

definition paths_example :: "pystr list" where
  "paths_example = [py ''cards/a.jpg'', py ''cards/b.PNG'']"

definition loaded_example :: "(pystr \<times> image_reader option) list" where
  "loaded_example = [(py ''cards/a.jpg'', Some reader_example), (py ''cards/b.PNG'', None)]"

definition out_example :: "env \<Rightarrow> outcome" where
  "out_example env =
     \<lparr>out_paths = paths_example, out_loaded = loaded_example,
      document = [page_ops env loaded_example 0],
      out_card_index = 2, out_progress = [(1, 2), (2, 2)],
      out_console = console_messages 2 (py ''cards.pdf'')\<rparr>"

text \<open>The same folder when drawing an image fails.\<close>

definition env_draw_fails :: env where
  "env_draw_fails = env_example\<lparr>draw_raises := (\<lambda>img. True)\<rparr>"

text \<open>An empty folder, and a folder of ten images none of which can be decoded.\<close>

definition env_empty :: env where
  "env_empty = env_example\<lparr>listdir := (\<lambda>d. Inr [])\<rparr>"

definition dir_ten :: "pystr list" where
  "dir_ten = [py ''9.png'', py ''8.png'', py ''7.png'', py ''6.png'', py ''5.png'',
              py ''4.png'', py ''3.png'', py ''2.png'', py ''1.png'', py ''0.png'']"

definition env_ten :: env where
  "env_ten =
     \<lparr>listdir = (\<lambda>d. Inr dir_ten),
      open_rgba = (\<lambda>p. Inl ImageError),
      draw_raises = (\<lambda>img. False),
      writable = (\<lambda>f. True),
      scheduler = (\<lambda>n. n),
      stdout_error = (\<lambda>s. None),
      flush_error = None\<rparr>"

definition paths_ten :: "pystr list" where
  "paths_ten = [py ''cards/0.png'', py ''cards/1.png'', py ''cards/2.png'', py ''cards/3.png'',
                py ''cards/4.png'', py ''cards/5.png'', py ''cards/6.png'', py ''cards/7.png'',
                py ''cards/8.png'', py ''cards/9.png'']"

text \<open>The same folder on a console that has the ASCII characters only.\<close>

definition env_ascii :: env where
  "env_ascii =
     env_example\<lparr>stdout_error :=
       (\<lambda>s. if list_all (\<lambda>c. c < 128) s then None else Some UnicodeEncodeError)\<rparr>"

section \<open>Strings and sorting\<close>

lemma endswith1_iff: "endswith1 s x \<longleftrightarrow> (\<exists>stem. s = stem @ x)"
proof
  assume "endswith1 s x"
  then have "s = take (length s - length x) s @ x"
    by (metis append_take_drop_id endswith1_def)
  then show "\<exists>stem. s = stem @ x" ..
next
  assume "\<exists>stem. s = stem @ x"
  then show "endswith1 s x" by (auto simp: endswith1_def)
qed

lemma endswith_supported:
  "endswith (lower f) supported_extensions = spec_has_image_extension f"
  by (simp add: endswith_def endswith1_iff supported_extensions_def
      spec_has_image_extension_def spec_extensions_def py_def)

lemma append_le_append: "(p @ a \<le> p @ b) = (a \<le> (b :: nat list))"
  by (induction p) simp_all

lemma insort_append:
  "insort (p @ x) (map ((@) p) xs) = map ((@) p) (insort x (xs :: nat list list))"
  by (induction xs) (simp_all add: append_le_append)

lemma sort_map_append: "sort (map ((@) p) xs) = map ((@) p) (sort (xs :: nat list list))"
  by (induction xs) (simp_all add: insort_append)

lemma os_path_join_relative:
  "sep \<notin> set b \<Longrightarrow> os_path_join a b = dir_prefix a @ b"
  by (cases b) (auto simp: os_path_join_def dir_prefix_def)

lemma sort_joined:
  assumes "\<forall>f \<in> set names. sep \<notin> set f"
  shows "sort (map (os_path_join a) names) = map (os_path_join a) (sort names)"
proof -
  have 1: "map (os_path_join a) names = map ((@) (dir_prefix a)) names"
    using assms by (intro map_cong) (simp_all add: os_path_join_relative)
  have 2: "map (os_path_join a) (sort names) = map ((@) (dir_prefix a)) (sort names)"
    using assms by (intro map_cong) (simp_all add: os_path_join_relative)
  show ?thesis by (simp only: 1 2 sort_map_append)
qed

section \<open>Compositing an opaque image\<close>

lemma shiftfordiv255_opaque:
  assumes "n < 256"
  shows "SHIFTFORDIV255 (n * 32640 + 16384) div 128 = n"
proof -
  define a where "a = n * 32640 + 16384"
  define q where "q = a div 256"
  have q1: "256 * q \<le> a"
    unfolding q_def by simp
  have "a mod 256 < 256"
    by simp
  then have q2: "a < 256 * q + 256"
    unfolding q_def by (metis add_less_cancel_left mult_div_mod_eq)
  have lo: "32768 * n \<le> q + a"
    using q2 assms unfolding a_def by linarith
  have hi: "q + a < 32768 * n + 32768"
    using q1 assms unfolding a_def by linarith
  have "(q + a) div 32768 = n"
    using lo hi by (intro Euclidean_Rings.div_nat_eqI) (simp_all add: mult.commute)
  then show ?thesis
    unfolding SHIFTFORDIV255_def q_def a_def by (simp add: div_mult2_eq)
qed

lemma channel_opaque:
  "of_nat (SHIFTFORDIV255 (unat (c :: byte) * 32640 + 16384) div 128) = c"
proof -
  have "unat c < 2 ^ LENGTH(8)"
    by (rule unsigned_less)
  then have "unat c < 256"
    by simp
  then have "SHIFTFORDIV255 (unat c * 32640 + 16384) div 128 = unat c"
    by (rule shiftfordiv255_opaque)
  then show ?thesis
    by simp
qed

lemma composite_pixel_opaque:
  "composite_pixel d (r, g, b, 255) = (r, g, b, 255)"
proof -
  have a: "SHIFTFORDIV255 65153 = 255"
    by (simp add: SHIFTFORDIV255_def)
  show ?thesis
    by (cases d) (simp add: composite_pixel_def Let_def channel_opaque a)
qed

lemma composite_opaque_pixels:
  assumes "\<forall>p \<in> set ps. alpha p = 255" and "length ds = length ps"
  shows "map (\<lambda>(d, s). composite_pixel d s) (zip ds ps) = ps"
  using assms
proof (induction ps arbitrary: ds)
  case Nil
  then show ?case by simp
next
  case (Cons p ps)
  then obtain d ds' where ds: "ds = d # ds'"
    by (cases ds) auto
  obtain r g b a where p: "p = (r, g, b, a)"
    by (cases p) auto
  with Cons.prems(1) have "a = 255"
    by (simp add: alpha_def)
  with Cons ds p show ?case
    by (simp add: composite_pixel_opaque)
qed

lemma alpha_composite_white_opaque:
  assumes "wf_image img" and "\<forall>p \<in> set (pixels img). alpha p = 255"
  shows "alpha_composite (image_new (isize img) white) img = Inr img"
proof -
  have "length (pixels (image_new (isize img) white)) = length (pixels img)"
    using assms(1) by (simp add: image_new_def wf_image_def)
  then have "map (\<lambda>(d, s). composite_pixel d s)
          (zip (pixels (image_new (isize img) white)) (pixels img)) = pixels img"
    using assms(2) by (intro composite_opaque_pixels) simp_all
  then show ?thesis
    by (simp add: alpha_composite_def image_new_def)
qed

section \<open>The thread pool\<close>

lemma set_remove_nth:
  assumes "j < length xs"
  shows "insert (xs ! j) (set (take j xs @ drop (Suc j) xs)) = set xs"
proof -
  define a where "a = take j xs"
  define b where "b = drop (Suc j) xs"
  define x where "x = xs ! j"
  have xs: "a @ x # b = xs"
    unfolding a_def b_def x_def using assms by (rule id_take_nth_drop [symmetric])
  have "insert x (set (a @ b)) = set (a @ x # b)"
    by simp
  also have "\<dots> = set xs"
    by (simp only: xs)
  finally show ?thesis
    by (simp only: a_def b_def x_def)
qed

lemma set_completion_order:
  "length pending = n \<Longrightarrow> set (completion_order pick n pending) = set pending"
proof (induction n arbitrary: pending)
  case 0
  then show ?case by simp
next
  case (Suc n)
  define j where "j = pick (Suc n) mod length pending"
  have ne: "pending \<noteq> []"
    using Suc.prems by auto
  then have j: "j < length pending"
    by (simp add: j_def)
  have "length (take j pending @ drop (Suc j) pending) = n"
    using Suc.prems j by simp
  then have "set (completion_order pick n (take j pending @ drop (Suc j) pending)) =
      set (take j pending @ drop (Suc j) pending)"
    by (rule Suc.IH)
  moreover have "completion_order pick (Suc n) pending =
      pending ! j # completion_order pick n (take j pending @ drop (Suc j) pending)"
    by (simp only: completion_order.simps ne if_False Let_def j_def)
  ultimately have "set (completion_order pick (Suc n) pending) =
      insert (pending ! j) (set (take j pending @ drop (Suc j) pending))"
    by (simp only: list.set)
  then show ?case
    by (simp only: set_remove_nth [OF j])
qed

lemma length_fold_set_future:
  "length (fold (\<lambda>i fs. fs[i := Some (f (xs ! i))]) order fs) = length fs"
  by (induction order arbitrary: fs) simp_all

lemma nth_fold_set_future:
  "k < length fs \<Longrightarrow>
   fold (\<lambda>i fs. fs[i := Some (f (xs ! i))]) order fs ! k =
     (if k \<in> set order then Some (f (xs ! k)) else fs ! k)"
proof (induction order arbitrary: fs)
  case Nil
  then show ?case by simp
next
  case (Cons i order)
  then show ?case
    by (cases "i = k") (simp_all add: nth_list_update)
qed

lemma those_map_Some: "those (map Some ys) = Some ys"
  by (induction ys) simp_all

lemma executor_map_eq: "executor_map pick f xs = Some (map f xs)"
proof -
  define order where "order = completion_order pick (length xs) [0..<length xs]"
  define filled where
    "filled = fold (\<lambda>i fs. fs[i := Some (f (xs ! i))]) order (replicate (length xs) None)"
  have order: "set order = {0..<length xs}"
    unfolding order_def using set_completion_order [of "[0..<length xs]" "length xs" pick]
    by simp
  have filled: "filled = map Some (map f xs)"
  proof (rule nth_equalityI)
    show "length filled = length (map Some (map f xs))"
      by (simp add: filled_def length_fold_set_future)
  next
    fix k assume "k < length filled"
    then have k: "k < length xs"
      by (simp add: filled_def length_fold_set_future)
    then show "filled ! k = map Some (map f xs) ! k"
      by (simp add: filled_def nth_fold_set_future order)
  qed
  have "executor_map pick f xs = those filled"
    by (simp add: executor_map_def filled_def order_def)
  also have "\<dots> = Some (map f xs)"
    by (simp only: filled those_map_Some)
  finally show ?thesis .
qed

lemma preload_images_eq:
  "preload_images env pick paths =
     Some (map (\<lambda>p. (p, load_image env p)) paths)"
  by (simp add: preload_images_def executor_map_eq zip_map2 zip_same_conv_map)

text \<open>Every order of completion is the order of some scheduler.\<close>

lemma completion_order_cong:
  "(\<And>m. 0 < m \<Longrightarrow> m \<le> n \<Longrightarrow> pick m = pick' m) \<Longrightarrow>
   completion_order pick n pending = completion_order pick' n pending"
proof (induction n arbitrary: pending)
  case 0
  then show ?case by simp
next
  case (Suc n)
  have "completion_order pick n rest = completion_order pick' n rest" for rest
    by (rule Suc.IH) (simp add: Suc.prems)
  moreover have "pick (Suc n) = pick' (Suc n)"
    by (rule Suc.prems) simp_all
  ultimately show ?case
    by (simp add: Let_def)
qed

lemma remove_nth_distinct:
  assumes "distinct xs" and "j < length xs"
  shows "distinct (take j xs @ drop (Suc j) xs)"
    and "set (take j xs @ drop (Suc j) xs) = set xs - {xs ! j}"
proof -
  have xs: "xs = take j xs @ xs ! j # drop (Suc j) xs"
    using assms(2) by (rule id_take_nth_drop)
  have d: "distinct (take j xs @ xs ! j # drop (Suc j) xs)"
    using assms(1) xs by metis
  then show "distinct (take j xs @ drop (Suc j) xs)"
    by simp
  have "xs ! j \<notin> set (take j xs @ drop (Suc j) xs)"
    using d by auto
  then show "set (take j xs @ drop (Suc j) xs) = set xs - {xs ! j}"
    using set_remove_nth [OF assms(2)] by blast
qed

lemma every_completion_order_possible:
  assumes "distinct order" and "distinct pending" and "set order = set pending"
  shows "\<exists>pick. completion_order pick (length pending) pending = order"
  using assms
proof (induction order arbitrary: pending)
  case Nil
  then show ?case by simp
next
  case (Cons x order)
  from Cons.prems(3) have "x \<in> set pending"
    by auto
  then obtain j where j: "j < length pending" "pending ! j = x"
    by (auto simp: in_set_conv_nth)
  define rest where "rest = take j pending @ drop (Suc j) pending"
  have rest: "distinct rest" "set rest = set pending - {x}"
    using remove_nth_distinct [OF Cons.prems(2) j(1)] j(2) by (simp_all add: rest_def)
  have "set order = set rest"
    using Cons.prems(1,3) rest(2) by auto
  moreover have "distinct order"
    using Cons.prems(1) by simp
  ultimately obtain pick' where pick': "completion_order pick' (length rest) rest = order"
    using Cons.IH [OF _ rest(1)] by blast
  have len: "length pending = Suc (length rest)"
    using j(1) by (simp add: rest_def)
  define pick where "pick = pick'(Suc (length rest) := j)"
  have "completion_order pick (length rest) rest = completion_order pick' (length rest) rest"
    by (rule completion_order_cong) (simp add: pick_def)
  moreover have "pending \<noteq> []"
    using j(1) by auto
  moreover have "pick (Suc (length rest)) mod length pending = j"
    using j(1) by (simp add: pick_def)
  ultimately have "completion_order pick (length pending) pending = x # order"
    unfolding len by (simp add: Let_def pick' j(2) rest_def [symmetric] len)
  then show ?case by blast
qed

section \<open>The loops of the renderer\<close>

subsection \<open>Loops\<close>

lemma for_each_append:
  "for_each body (xs @ ys) s =
     (case for_each body xs s of Inl e \<Rightarrow> Inl e | Inr s' \<Rightarrow> for_each body ys s')"
  by (induction xs arbitrary: s) (simp_all split: sum.splits)

lemma for_each_map_Pair:
  "for_each (\<lambda>(a, b). body a b) (map (Pair a) bs) s = for_each (body a) bs s"
  by (induction bs arbitrary: s) (simp_all split: sum.splits)

lemma for_each_nested:
  "for_each (\<lambda>a. for_each (body a) bs) as s =
     for_each (\<lambda>(a, b). body a b) (List.product as bs) s"
  by (induction as arbitrary: s)
     (simp_all add: for_each_append for_each_map_Pair split: sum.splits)

lemma fold_emit:
  "fold (\<lambda>x c. c\<lparr>code := code c @ g x\<rparr>) xs c = c\<lparr>code := code c @ concat (map g xs)\<rparr>"
  by (induction xs arbitrary: c) simp_all

lemma fold_nested:
  "fold (\<lambda>a. fold (body a) bs) as c = fold (\<lambda>(a, b). body a b) (List.product as bs) c"
proof (induction as arbitrary: c)
  case Nil
  then show ?case by simp
next
  case (Cons a as)
  have "fold (\<lambda>(a, b). body a b) (map (Pair a) bs) c = fold (body a) bs c" for c
    by (induction bs arbitrary: c) simp_all
  with Cons show ?case by simp
qed

subsection \<open>Guides\<close>

lemma draw_guides_eq: "draw_guides c = c\<lparr>code := code c @ guide_ops\<rparr>"
proof -
  define g where "g = (\<lambda>(v, h).
     [SetLineWidth (1 / 2),
      Rect (left_margin + of_nat v * (card_width + gap))
           (bottom_margin + of_nat h * (card_height + gap)) gap gap])"
  have body: "(\<lambda>h c. let x_square = left_margin + of_nat v * (card_width + gap);
                        y_square = bottom_margin + of_nat h * (card_height + gap)
                    in rect (setLineWidth c (1 / 2)) x_square y_square gap gap) =
              (\<lambda>h c. c\<lparr>code := code c @ g (v, h)\<rparr>)" for v
    by (simp add: fun_eq_iff rect_def setLineWidth_def g_def)
  have "draw_guides c =
      fold (\<lambda>v. fold (\<lambda>h c. c\<lparr>code := code c @ g (v, h)\<rparr>) [0..<rows + 1])
        [0..<columns + 1] c"
    by (simp only: draw_guides_def body)
  also have "\<dots> = fold (\<lambda>(v, h) c. c\<lparr>code := code c @ g (v, h)\<rparr>)
                    (List.product [0..<columns + 1] [0..<rows + 1]) c"
    by (rule fold_nested)
  also have "(\<lambda>(v, h) c. c\<lparr>code := code c @ g (v, h)\<rparr>) = (\<lambda>x c. c\<lparr>code := code c @ g x\<rparr>)"
    by (simp add: fun_eq_iff)
  also have "fold (\<lambda>x c. c\<lparr>code := code c @ g x\<rparr>)
                 (List.product [0..<columns + 1] [0..<rows + 1]) c =
             c\<lparr>code := code c @ concat (map g (List.product [0..<columns + 1] [0..<rows + 1]))\<rparr>"
    by (rule fold_emit)
  finally show ?thesis
    by (simp only: guide_ops_def g_def)
qed

subsection \<open>The console\<close>

lemma yields_Inr: "yields accepted (Inr x) x"
  by (simp add: yields_def)

lemma yields_bind:
  assumes "yields accepted r x" and "yields accepted (f x) y"
  shows "yields accepted (case r of Inl e \<Rightarrow> Inl e | Inr s \<Rightarrow> f s) y"
  using assms by (auto simp: yields_def)

lemma yields_accepted: "yields accepted r x \<Longrightarrow> accepted \<Longrightarrow> r = Inr x"
  by (auto simp: yields_def)

lemma yields_returned: "yields accepted r x \<Longrightarrow> r = Inr y \<Longrightarrow> y = x"
  by (auto simp: yields_def)

lemma digit_code_point:
  "m < 10 \<Longrightarrow> 48 + m \<in> {48, 49, 50, 51, 52, 53, 54, 55, 56, 57 :: nat}"
  by auto

lemma set_str_nat: "set (str_nat n) \<subseteq> set (py ''0123456789'')"
proof (induction n rule: str_nat.induct)
  case (1 n)
  show ?case
  proof (cases "n < 10")
    case True
    with digit_code_point [of n] show ?thesis
      by (subst str_nat.simps) (simp add: py_def)
  next
    case False
    have "48 + n mod 10 \<in> {48, 49, 50, 51, 52, 53, 54, 55, 56, 57}"
      by (rule digit_code_point) simp
    with False 1 show ?thesis
      by (subst str_nat.simps) (simp add: py_def)
  qed
qed

lemma progress_line_alphabet:
  "set (progress_line k total_cards) \<subseteq> set (console_alphabet @ output_filename)"
proof -
  have "set (str_nat n) \<subseteq> set (console_alphabet @ output_filename)" for n
    using set_str_nat [of n] by (auto simp: console_alphabet_def py_def)
  then show ?thesis
    by (auto simp: progress_line_def console_alphabet_def py_def)
qed

lemma yields_write:
  assumes "set s \<subseteq> set (console_alphabet @ output_filename)"
  shows "yields (console_accepts env output_filename) (stdout_write env written s) (written @ [s])"
proof (cases "stdout_error env s")
  case None
  then show ?thesis
    by (simp add: yields_def stdout_write_def)
next
  case (Some e)
  with assms have "\<not> console_accepts env output_filename"
    by (auto simp: console_accepts_def)
  with Some show ?thesis
    by (simp add: yields_def stdout_write_def)
qed

lemma yields_flush:
  "yields (console_accepts env output_filename) (stdout_flush env written) written"
  by (cases "flush_error env") (simp_all add: yields_def stdout_flush_def console_accepts_def)

lemma yields_print:
  assumes "set s \<subseteq> set (console_alphabet @ output_filename)"
  shows "yields (console_accepts env output_filename) (print env written s)
           (written @ [s, [10]])"
proof -
  have "set [10 :: nat] \<subseteq> set (console_alphabet @ output_filename)"
    by (simp add: console_alphabet_def)
  then have "yields (console_accepts env output_filename)
      (stdout_write env (written @ [s]) [10]) ((written @ [s]) @ [[10]])"
    by (rule yields_write)
  with yields_write [OF assms] show ?thesis
    unfolding print_def by (intro yields_bind) simp_all
qed

subsection \<open>Cells\<close>

lemma place_cell_yields:
  assumes "length loaded = total_cards"
  shows "yields (console_accepts env output_filename)
     (place_cell env loaded total_cards row col st)
     (if card_index st < total_cards
      then st\<lparr>canv := (canv st)\<lparr>code := code (canv st) @
                   card_ops env (snd (loaded ! card_index st)) (cell_x col) (cell_y row)\<rparr>,
              card_index := card_index st + 1,
              progress := progress st @ [(card_index st + 1, total_cards)],
              console := console st @ [progress_line (card_index st + 1) total_cards]\<rparr>
      else st)"
proof (cases "card_index st < total_cards")
  case False
  then show ?thesis
    by (simp add: place_cell_def yields_Inr)
next
  case True
  obtain img_path img_obj where entry: "loaded ! card_index st = (img_path, img_obj)"
    by (cases "loaded ! card_index st") auto
  define c' where "c' = (canv st)\<lparr>code := code (canv st) @
                   card_ops env img_obj (cell_x col) (cell_y row)\<rparr>"
  have wr: "yields (console_accepts env output_filename)
      (stdout_write env (console st) (progress_line (card_index st + 1) total_cards))
      (console st @ [progress_line (card_index st + 1) total_cards])"
    by (rule yields_write) (rule progress_line_alphabet)
  have "place_cell env loaded total_cards row col st =
      (case stdout_write env (console st) (progress_line (card_index st + 1) total_cards) of
         Inl e \<Rightarrow> Inl e
       | Inr written \<Rightarrow>
           (case stdout_flush env written of
              Inl e \<Rightarrow> Inl e
            | Inr flushed \<Rightarrow>
                Inr (st\<lparr>canv := c', card_index := card_index st + 1,
                        progress := progress st @ [(card_index st + 1, total_cards)],
                        console := flushed\<rparr>)))"
    using True assms
    by (simp add: place_cell_def Let_def entry c'_def card_ops_def placeholder_ops_def
        error_label_def cell_x_def cell_y_def drawImage_def rect_def drawString_def
        progress_line_def split: option.splits sum.splits)
  moreover have "yields (console_accepts env output_filename)
      (case stdout_write env (console st) (progress_line (card_index st + 1) total_cards) of
         Inl e \<Rightarrow> Inl e
       | Inr written \<Rightarrow>
           (case stdout_flush env written of
              Inl e \<Rightarrow> Inl e
            | Inr flushed \<Rightarrow>
                Inr (st\<lparr>canv := c', card_index := card_index st + 1,
                        progress := progress st @ [(card_index st + 1, total_cards)],
                        console := flushed\<rparr>)))
      (st\<lparr>canv := c', card_index := card_index st + 1,
          progress := progress st @ [(card_index st + 1, total_cards)],
          console := console st @ [progress_line (card_index st + 1) total_cards]\<rparr>)"
    using wr by (rule yields_bind) (rule yields_bind, rule yields_flush, rule yields_Inr)
  ultimately show ?thesis
    using True by (simp add: c'_def entry)
qed

lemma cells_ops_exhausted:
  "length loaded \<le> i \<Longrightarrow> cells_ops env loaded i cells = []"
  by (induction cells arbitrary: i) auto

lemma place_cells_yields:
  assumes "length loaded = total_cards" and "card_index st \<le> total_cards"
  shows "yields (console_accepts env output_filename)
     (for_each (\<lambda>(row, col). place_cell env loaded total_cards row col) cells st)
     (st\<lparr>canv := (canv st)\<lparr>code := code (canv st) @
                  cells_ops env loaded (card_index st) cells\<rparr>,
         card_index := min (card_index st + length cells) total_cards,
         progress := progress st @
            map (\<lambda>k. (Suc k, total_cards))
              [card_index st..<min (card_index st + length cells) total_cards],
         console := console st @
            map (\<lambda>k. progress_line (Suc k) total_cards)
              [card_index st..<min (card_index st + length cells) total_cards]\<rparr>)"
  using assms(2)
proof (induction cells arbitrary: st)
  case Nil
  then show ?case by (simp add: yields_Inr)
next
  case (Cons cell cells)
  obtain row col where cell: "cell = (row, col)"
    by (cases cell) auto
  show ?case
  proof (cases "card_index st < total_cards")
    case True
    define st' where "st' = st\<lparr>canv := (canv st)\<lparr>code := code (canv st) @
                       card_ops env (snd (loaded ! card_index st)) (cell_x col) (cell_y row)\<rparr>,
                  card_index := card_index st + 1,
                  progress := progress st @ [(card_index st + 1, total_cards)],
                  console := console st @ [progress_line (card_index st + 1) total_cards]\<rparr>"
    have step: "yields (console_accepts env output_filename)
        (place_cell env loaded total_cards row col st) st'"
      using place_cell_yields [OF assms(1), of env output_filename row col st] True
      by (simp add: st'_def)
    have "card_index st' \<le> total_cards"
      using True by (simp add: st'_def)
    then have IH: "yields (console_accepts env output_filename)
       (for_each (\<lambda>(row, col). place_cell env loaded total_cards row col) cells st')
       (st'\<lparr>canv := (canv st')\<lparr>code := code (canv st') @
                  cells_ops env loaded (card_index st') cells\<rparr>,
             card_index := min (card_index st' + length cells) total_cards,
             progress := progress st' @
                map (\<lambda>k. (Suc k, total_cards))
                  [card_index st'..<min (card_index st' + length cells) total_cards],
             console := console st' @
                map (\<lambda>k. progress_line (Suc k) total_cards)
                  [card_index st'..<min (card_index st' + length cells) total_cards]\<rparr>)"
      by (rule Cons.IH)
    have upt: "[card_index st..<min (Suc (card_index st + length cells)) total_cards] =
        card_index st # [Suc (card_index st)..<min (Suc (card_index st + length cells)) total_cards]"
      using True by (simp add: upt_conv_Cons)
    have target: "st'\<lparr>canv := (canv st')\<lparr>code := code (canv st') @
                  cells_ops env loaded (card_index st') cells\<rparr>,
             card_index := min (card_index st' + length cells) total_cards,
             progress := progress st' @
                map (\<lambda>k. (Suc k, total_cards))
                  [card_index st'..<min (card_index st' + length cells) total_cards],
             console := console st' @
                map (\<lambda>k. progress_line (Suc k) total_cards)
                  [card_index st'..<min (card_index st' + length cells) total_cards]\<rparr> =
        st\<lparr>canv := (canv st)\<lparr>code := code (canv st) @
                  cells_ops env loaded (card_index st) (cell # cells)\<rparr>,
         card_index := min (card_index st + length (cell # cells)) total_cards,
         progress := progress st @
            map (\<lambda>k. (Suc k, total_cards))
              [card_index st..<min (card_index st + length (cell # cells)) total_cards],
         console := console st @
            map (\<lambda>k. progress_line (Suc k) total_cards)
              [card_index st..<min (card_index st + length (cell # cells)) total_cards]\<rparr>"
      using True assms(1) by (simp add: cell st'_def upt)
    have "yields (console_accepts env output_filename)
       (case place_cell env loaded total_cards row col st of
          Inl e \<Rightarrow> Inl e
        | Inr s \<Rightarrow> for_each (\<lambda>(row, col). place_cell env loaded total_cards row col) cells s)
       (st'\<lparr>canv := (canv st')\<lparr>code := code (canv st') @
                  cells_ops env loaded (card_index st') cells\<rparr>,
             card_index := min (card_index st' + length cells) total_cards,
             progress := progress st' @
                map (\<lambda>k. (Suc k, total_cards))
                  [card_index st'..<min (card_index st' + length cells) total_cards],
             console := console st' @
                map (\<lambda>k. progress_line (Suc k) total_cards)
                  [card_index st'..<min (card_index st' + length cells) total_cards]\<rparr>)"
      using step IH by (rule yields_bind)
    then show ?thesis
      unfolding target by (simp add: cell)
  next
    case False
    with Cons.prems have eq: "card_index st = total_cards"
      by simp
    have step: "place_cell env loaded total_cards row col st = Inr st"
      using False by (simp add: place_cell_def)
    have "cells_ops env loaded total_cards cells = []"
      "cells_ops env loaded (Suc total_cards) cells = []"
      using assms(1) by (simp_all add: cells_ops_exhausted)
    then show ?thesis
      using Cons.IH [OF Cons.prems] assms(1) by (simp add: cell step eq)
  qed
qed

subsection \<open>Pages\<close>

lemma length_page_cells: "length page_cells = cards_per_page"
  by (simp add: page_cells_def rows_def columns_def cards_per_page_def)

lemma msg_blank_alphabet: "set msg_blank \<subseteq> set (console_alphabet @ output_filename)"
  by (auto simp: console_alphabet_def)

lemma render_page_yields:
  assumes "length loaded = total_cards" and "card_index st \<le> total_cards"
  shows "yields (console_accepts env output_filename)
     (render_page env loaded total_cards page st)
     (st\<lparr>canv := (canv st)\<lparr>doc_pages := doc_pages (canv st) @
                  [code (canv st) @ cells_ops env loaded (card_index st) page_cells @ guide_ops],
                  code := []\<rparr>,
         card_index := min (card_index st + cards_per_page) total_cards,
         progress := progress st @
            map (\<lambda>k. (Suc k, total_cards))
              [card_index st..<min (card_index st + cards_per_page) total_cards],
         console := console st @
            map (\<lambda>k. progress_line (Suc k) total_cards)
              [card_index st..<min (card_index st + cards_per_page) total_cards]
            @ (if total_cards = 0 then [msg_blank] else [])\<rparr>)"
proof -
  define st' where "st' = st\<lparr>canv := (canv st)\<lparr>code := code (canv st) @
                  cells_ops env loaded (card_index st) page_cells\<rparr>,
         card_index := min (card_index st + length page_cells) total_cards,
         progress := progress st @
            map (\<lambda>k. (Suc k, total_cards))
              [card_index st..<min (card_index st + length page_cells) total_cards],
         console := console st @
            map (\<lambda>k. progress_line (Suc k) total_cards)
              [card_index st..<min (card_index st + length page_cells) total_cards]\<rparr>"
  have "for_each (\<lambda>row. for_each (\<lambda>col. place_cell env loaded total_cards row col)
                             [0..<columns]) [0..<rows] st =
        for_each (\<lambda>(row, col). place_cell env loaded total_cards row col) page_cells st"
    unfolding page_cells_def by (rule for_each_nested)
  then have cells: "yields (console_accepts env output_filename)
      (for_each (\<lambda>row. for_each (\<lambda>col. place_cell env loaded total_cards row col)
                             [0..<columns]) [0..<rows] st) st'"
    using place_cells_yields [OF assms, of env output_filename page_cells]
    by (simp add: st'_def)
  have blank: "yields (console_accepts env output_filename)
      (if total_cards = 0 then stdout_write env (console st') msg_blank else Inr (console st'))
      (console st' @ (if total_cards = 0 then [msg_blank] else []))"
    using yields_write [OF msg_blank_alphabet, of env output_filename "console st'"]
    by (simp add: yields_Inr)
  have rest: "yields (console_accepts env output_filename)
      (case (if total_cards = 0 then stdout_write env (console st') msg_blank
             else Inr (console st')) of
         Inl e \<Rightarrow> Inl e
       | Inr written \<Rightarrow>
           Inr (st'\<lparr>canv := showPage (draw_guides (canv st')), console := written\<rparr>))
      (st'\<lparr>canv := showPage (draw_guides (canv st')),
           console := console st' @ (if total_cards = 0 then [msg_blank] else [])\<rparr>)"
    using blank by (rule yields_bind) (rule yields_Inr)
  have "yields (console_accepts env output_filename)
      (render_page env loaded total_cards page st)
      (st'\<lparr>canv := showPage (draw_guides (canv st')),
           console := console st' @ (if total_cards = 0 then [msg_blank] else [])\<rparr>)"
    unfolding render_page_def using cells rest by (rule yields_bind)
  moreover have "st'\<lparr>canv := showPage (draw_guides (canv st')),
           console := console st' @ (if total_cards = 0 then [msg_blank] else [])\<rparr> =
      st\<lparr>canv := (canv st)\<lparr>doc_pages := doc_pages (canv st) @
                  [code (canv st) @ cells_ops env loaded (card_index st) page_cells @ guide_ops],
                  code := []\<rparr>,
         card_index := min (card_index st + cards_per_page) total_cards,
         progress := progress st @
            map (\<lambda>k. (Suc k, total_cards))
              [card_index st..<min (card_index st + cards_per_page) total_cards],
         console := console st @
            map (\<lambda>k. progress_line (Suc k) total_cards)
              [card_index st..<min (card_index st + cards_per_page) total_cards]
            @ (if total_cards = 0 then [msg_blank] else [])\<rparr>"
    by (simp add: st'_def draw_guides_eq showPage_def length_page_cells)
  ultimately show ?thesis
    by simp
qed

lemma cells_ops_min:
  assumes "length loaded = total_cards"
  shows "cells_ops env loaded (min i total_cards) cells = cells_ops env loaded i cells"
proof (cases "i \<le> total_cards")
  case True
  then show ?thesis by (simp add: min_def)
next
  case False
  then show ?thesis
    using assms by (simp add: min_def cells_ops_exhausted)
qed

lemma upt_split: "a \<le> b \<Longrightarrow> [0..<a] @ [a..<b] = [0..<(b::nat)]"
  by (metis le0 upt_add_eq_append le_Suc_ex)

lemma render_pages_yields:
  assumes "length loaded = total_cards"
  shows "yields (console_accepts env output_filename)
     (for_each (render_page env loaded total_cards) [0..<n]
           \<lparr>canv = Canvas output_filename, card_index = 0, progress = [], console = written\<rparr>)
     \<lparr>canv = \<lparr>filename = output_filename, code = [],
                  doc_pages = map (page_ops env loaded) [0..<n]\<rparr>,
          card_index = min (n * cards_per_page) total_cards,
          progress = map (\<lambda>k. (Suc k, total_cards)) [0..<min (n * cards_per_page) total_cards],
          console = written
            @ map (\<lambda>k. progress_line (Suc k) total_cards)
                [0..<min (n * cards_per_page) total_cards]
            @ (if total_cards = 0 then replicate n msg_blank else [])\<rparr>"
proof (induction n)
  case 0
  then show ?case by (simp add: Canvas_def yields_Inr)
next
  case (Suc n)
  define st where "st = \<lparr>canv = \<lparr>filename = output_filename, code = [],
                  doc_pages = map (page_ops env loaded) [0..<n]\<rparr>,
          card_index = min (n * cards_per_page) total_cards,
          progress = map (\<lambda>k. (Suc k, total_cards)) [0..<min (n * cards_per_page) total_cards],
          console = written
            @ map (\<lambda>k. progress_line (Suc k) total_cards)
                [0..<min (n * cards_per_page) total_cards]
            @ (if total_cards = 0 then replicate n msg_blank else [])\<rparr>"
  have le: "card_index st \<le> total_cards"
    by (simp add: st_def)
  have ci: "card_index st = min (n * cards_per_page) total_cards"
    by (simp add: st_def)
  have a: "min (card_index st + cards_per_page) total_cards =
        min (Suc n * cards_per_page) total_cards"
    unfolding ci by (simp add: add.commute)
  have split: "[0..<min (n * cards_per_page) total_cards]
        @ [min (n * cards_per_page) total_cards..<min (Suc n * cards_per_page) total_cards] =
      [0..<min (Suc n * cards_per_page) total_cards]"
    by (rule upt_split) simp
  have b: "progress st @ map (\<lambda>k. (Suc k, total_cards))
               [card_index st..<min (Suc n * cards_per_page) total_cards] =
          map (\<lambda>k. (Suc k, total_cards)) [0..<min (Suc n * cards_per_page) total_cards]"
  proof -
    have "map (\<lambda>k. (Suc k, total_cards)) [0..<min (n * cards_per_page) total_cards]
        @ map (\<lambda>k. (Suc k, total_cards))
            [min (n * cards_per_page) total_cards..<min (Suc n * cards_per_page) total_cards] =
      map (\<lambda>k. (Suc k, total_cards)) [0..<min (Suc n * cards_per_page) total_cards]"
      by (simp only: split flip: map_append)
    then show ?thesis
      by (simp add: st_def)
  qed
  have c: "console st @ map (\<lambda>k. progress_line (Suc k) total_cards)
               [card_index st..<min (Suc n * cards_per_page) total_cards]
             @ (if total_cards = 0 then [msg_blank] else []) =
          written @ map (\<lambda>k. progress_line (Suc k) total_cards)
                [0..<min (Suc n * cards_per_page) total_cards]
            @ (if total_cards = 0 then replicate (Suc n) msg_blank else [])"
  proof (cases "total_cards = 0")
    case True
    then show ?thesis
      by (simp add: st_def replicate_append_same)
  next
    case False
    have "map (\<lambda>k. progress_line (Suc k) total_cards) [0..<min (n * cards_per_page) total_cards]
        @ map (\<lambda>k. progress_line (Suc k) total_cards)
            [min (n * cards_per_page) total_cards..<min (Suc n * cards_per_page) total_cards] =
      map (\<lambda>k. progress_line (Suc k) total_cards)
        [0..<min (Suc n * cards_per_page) total_cards]"
      by (simp only: split flip: map_append)
    with False show ?thesis
      by (simp add: st_def)
  qed
  have page: "yields (console_accepts env output_filename)
     (render_page env loaded total_cards n st)
     \<lparr>canv = \<lparr>filename = output_filename, code = [],
                  doc_pages = map (page_ops env loaded) [0..<Suc n]\<rparr>,
          card_index = min (Suc n * cards_per_page) total_cards,
          progress = map (\<lambda>k. (Suc k, total_cards))
                       [0..<min (Suc n * cards_per_page) total_cards],
          console = written
            @ map (\<lambda>k. progress_line (Suc k) total_cards)
                [0..<min (Suc n * cards_per_page) total_cards]
            @ (if total_cards = 0 then replicate (Suc n) msg_blank else [])\<rparr>"
  proof -
    have "st\<lparr>canv := (canv st)\<lparr>doc_pages := doc_pages (canv st) @
                  [code (canv st) @ cells_ops env loaded (card_index st) page_cells @ guide_ops],
                  code := []\<rparr>,
         card_index := min (card_index st + cards_per_page) total_cards,
         progress := progress st @
            map (\<lambda>k. (Suc k, total_cards))
              [card_index st..<min (card_index st + cards_per_page) total_cards],
         console := console st @
            map (\<lambda>k. progress_line (Suc k) total_cards)
              [card_index st..<min (card_index st + cards_per_page) total_cards]
            @ (if total_cards = 0 then [msg_blank] else [])\<rparr> =
       \<lparr>canv = \<lparr>filename = output_filename, code = [],
                  doc_pages = map (page_ops env loaded) [0..<Suc n]\<rparr>,
          card_index = min (Suc n * cards_per_page) total_cards,
          progress = map (\<lambda>k. (Suc k, total_cards))
                       [0..<min (Suc n * cards_per_page) total_cards],
          console = written
            @ map (\<lambda>k. progress_line (Suc k) total_cards)
                [0..<min (Suc n * cards_per_page) total_cards]
            @ (if total_cards = 0 then replicate (Suc n) msg_blank else [])\<rparr>"
      unfolding a b c
      by (simp add: st_def page_ops_def cells_ops_min [OF assms])
    with render_page_yields [OF assms le, of env output_filename n] show ?thesis
      by simp
  qed
  have "for_each (render_page env loaded total_cards) [0..<Suc n]
           \<lparr>canv = Canvas output_filename, card_index = 0, progress = [], console = written\<rparr> =
        (case for_each (render_page env loaded total_cards) [0..<n]
           \<lparr>canv = Canvas output_filename, card_index = 0, progress = [], console = written\<rparr> of
           Inl e \<Rightarrow> Inl e
         | Inr s \<Rightarrow> render_page env loaded total_cards n s)"
    by (simp add: for_each_append split: sum.split)
  moreover have "yields (console_accepts env output_filename)
        (case for_each (render_page env loaded total_cards) [0..<n]
           \<lparr>canv = Canvas output_filename, card_index = 0, progress = [], console = written\<rparr> of
           Inl e \<Rightarrow> Inl e
         | Inr s \<Rightarrow> render_page env loaded total_cards n s)
        \<lparr>canv = \<lparr>filename = output_filename, code = [],
                  doc_pages = map (page_ops env loaded) [0..<Suc n]\<rparr>,
          card_index = min (Suc n * cards_per_page) total_cards,
          progress = map (\<lambda>k. (Suc k, total_cards))
                       [0..<min (Suc n * cards_per_page) total_cards],
          console = written
            @ map (\<lambda>k. progress_line (Suc k) total_cards)
                [0..<min (Suc n * cards_per_page) total_cards]
            @ (if total_cards = 0 then replicate (Suc n) msg_blank else [])\<rparr>"
    using Suc.IH page unfolding st_def by (rule yields_bind)
  ultimately show ?case
    by simp
qed

subsection \<open>The whole run\<close>

lemma num_pages_covers: "min (num_pages n * cards_per_page) n = n"
proof -
  have "n \<le> (8 + n) div 9 * 9"
    by presburger
  then show ?thesis
    by (simp add: num_pages_def cards_per_page_def min_def)
qed

lemma yields_cases:
  assumes "yields accepted r x"
  obtains "r = Inr x" | e where "\<not> accepted" and "r = Inl e"
  using assms by (auto simp: yields_def)

lemma msg_done_alphabet:
  "set (msg_done @ output_filename) \<subseteq> set (console_alphabet @ output_filename)"
  by (auto simp: console_alphabet_def)

lemma msg_loading_alphabet: "set msg_loading \<subseteq> set (console_alphabet @ output_filename)"
  by (auto simp: console_alphabet_def)

lemma line_feed_alphabet: "set [10 :: nat] \<subseteq> set (console_alphabet @ output_filename)"
  by (simp add: console_alphabet_def)

lemma create_pdf_from_folder_yields:
  assumes "listdir env image_folder = Inr names"
  defines "paths \<equiv> sort (map (os_path_join image_folder)
             (filter (\<lambda>f. endswith (lower f) supported_extensions) names))"
  defines "loaded \<equiv> map (\<lambda>p. (p, load_image env p)) paths"
  shows "\<exists>r. create_pdf_from_folder env image_folder output_filename = Some r
           \<and> yields (console_accepts env output_filename \<and> writable env output_filename) r
               \<lparr>out_paths = paths, out_loaded = loaded,
                document = map (page_ops env loaded) [0..<num_pages (length paths)],
                out_card_index = length paths,
                out_progress = map (\<lambda>k. (Suc k, length paths)) [0..<length paths],
                out_console = console_messages (length paths) output_filename\<rparr>"
proof -
  define st where "st = \<lparr>canv = \<lparr>filename = output_filename, code = [],
                  doc_pages = map (page_ops env loaded) [0..<num_pages (length paths)]\<rparr>,
          card_index = length paths,
          progress = map (\<lambda>k. (Suc k, length paths)) [0..<length paths],
          console = [msg_loading, [10]]
            @ map (\<lambda>k. progress_line (Suc k) (length paths)) [0..<length paths]
            @ (if length paths = 0 then replicate (num_pages (length paths)) msg_blank else [])\<rparr>"
  have li: "list_images env image_folder = Inr paths"
    using assms(1) by (simp add: list_images_def paths_def)
  have pre: "preload_images env (scheduler env) paths = Some loaded"
    by (simp add: preload_images_eq loaded_def)
  have len: "length loaded = length paths"
    by (simp add: loaded_def)
  have first: "yields (console_accepts env output_filename) (print env [] msg_loading)
      [msg_loading, [10]]"
    using yields_print [OF msg_loading_alphabet, of env output_filename "[]"] by simp
  have pages: "yields (console_accepts env output_filename)
     (for_each (render_page env loaded (length paths)) [0..<num_pages (length paths)]
           \<lparr>canv = Canvas output_filename, card_index = 0, progress = [],
              console = [msg_loading, [10]]\<rparr>) st"
    using render_pages_yields [OF len, of env output_filename "num_pages (length paths)"
        "[msg_loading, [10]]"]
    by (simp add: st_def num_pages_covers)
  have feed: "yields (console_accepts env output_filename)
      (stdout_write env (console st) [10]) (console st @ [[10]])"
    using line_feed_alphabet by (rule yields_write)
  have last: "yields (console_accepts env output_filename)
      (print env (console st @ [[10]]) (msg_done @ output_filename))
      ((console st @ [[10]]) @ [msg_done @ output_filename, [10]])"
    using msg_done_alphabet by (rule yields_print)
  have console: "(console st @ [[10]]) @ [msg_done @ output_filename, [10]] =
      console_messages (length paths) output_filename"
    by (simp add: st_def console_messages_def num_pages_def)
  have saved: "save env (canv st) =
      (if writable env output_filename
       then Inr (map (page_ops env loaded) [0..<num_pages (length paths)]) else Inl OSError)"
    by (simp add: save_def st_def)
  show ?thesis
  proof (cases rule: yields_cases [OF first])
    case 2
    then show ?thesis
      by (simp add: create_pdf_from_folder_def li yields_def)
  next
    case 1
    note p1 = 1
    show ?thesis
    proof (cases rule: yields_cases [OF pages])
      case 2
      then show ?thesis
        by (simp add: create_pdf_from_folder_def li p1 pre yields_def)
    next
      case 1
      note p2 = 1
      show ?thesis
      proof (cases "writable env output_filename")
        case False
        then show ?thesis
          by (simp add: create_pdf_from_folder_def li p1 pre p2 saved yields_def)
      next
        case True
        note w = True
        show ?thesis
        proof (cases rule: yields_cases [OF feed])
          case 2
          then show ?thesis
            by (simp add: create_pdf_from_folder_def li p1 pre p2 saved w yields_def)
        next
          case 1
          note p3 = 1
          show ?thesis
          proof (cases rule: yields_cases [OF last])
            case 2
            then show ?thesis
              by (simp add: create_pdf_from_folder_def li p1 pre p2 saved w p3 yields_def)
          next
            case 1
            then show ?thesis
              unfolding console
              by (simp add: create_pdf_from_folder_def li p1 pre p2 saved w p3 yields_def Let_def)
                 (simp add: st_def)
          qed
        qed
      qed
    qed
  qed
qed

subsection \<open>What a returning run has done\<close>

lemma run_raises:
  "listdir env image_folder = Inl e \<Longrightarrow>
   create_pdf_from_folder env image_folder output_filename = Some (Inl e)"
  by (simp add: create_pdf_from_folder_def list_images_def)

lemma run_returns:
  assumes "create_pdf_from_folder env image_folder output_filename = Some (Inr out)"
  shows "out_loaded out = map (\<lambda>p. (p, load_image env p)) (out_paths out)"
    and "document out = map (page_ops env (out_loaded out)) [0..<num_pages (length (out_paths out))]"
    and "out_card_index out = length (out_paths out)"
    and "out_progress out = map (\<lambda>k. (Suc k, length (out_paths out))) [0..<length (out_paths out)]"
    and "list_images env image_folder = Inr (out_paths out)"
    and "out_console out = console_messages (length (out_paths out)) output_filename"
proof -
  obtain names where names: "listdir env image_folder = Inr names"
    using assms run_raises [of env image_folder _ output_filename]
    by (cases "listdir env image_folder") auto
  define paths where "paths = sort (map (os_path_join image_folder)
             (filter (\<lambda>f. endswith (lower f) supported_extensions) names))"
  define loaded where "loaded = map (\<lambda>p. (p, load_image env p)) paths"
  have "yields (console_accepts env output_filename \<and> writable env output_filename) (Inr out)
               \<lparr>out_paths = paths, out_loaded = loaded,
                document = map (page_ops env loaded) [0..<num_pages (length paths)],
                out_card_index = length paths,
                out_progress = map (\<lambda>k. (Suc k, length paths)) [0..<length paths],
                out_console = console_messages (length paths) output_filename\<rparr>"
    using create_pdf_from_folder_yields [OF names, of output_filename] assms
    by (simp add: paths_def loaded_def)
  then have out: "out = \<lparr>out_paths = paths, out_loaded = loaded,
                document = map (page_ops env loaded) [0..<num_pages (length paths)],
                out_card_index = length paths,
                out_progress = map (\<lambda>k. (Suc k, length paths)) [0..<length paths],
                out_console = console_messages (length paths) output_filename\<rparr>"
    by (simp add: yields_def)
  show "out_loaded out = map (\<lambda>p. (p, load_image env p)) (out_paths out)"
    by (simp add: out loaded_def)
  show "document out = map (page_ops env (out_loaded out)) [0..<num_pages (length (out_paths out))]"
    by (simp add: out)
  show "out_card_index out = length (out_paths out)"
    by (simp add: out)
  show "out_progress out = map (\<lambda>k. (Suc k, length (out_paths out))) [0..<length (out_paths out)]"
    by (simp add: out)
  show "list_images env image_folder = Inr (out_paths out)"
    by (simp add: out list_images_def names paths_def)
  show "out_console out = console_messages (length (out_paths out)) output_filename"
    by (simp add: out)
qed

lemma run_completes:
  assumes "listdir env image_folder = Inr names" and "writable env output_filename"
      and "console_accepts env output_filename"
  shows "\<exists>out. create_pdf_from_folder env image_folder output_filename = Some (Inr out)"
  using create_pdf_from_folder_yields [OF assms(1), of output_filename] assms(2,3)
  by (auto simp: yields_def)

lemma console_accepts_all:
  "stdout_error env = (\<lambda>s. None) \<and> flush_error env = None \<Longrightarrow>
     console_accepts env output_filename"
  by (simp add: console_accepts_def)

subsection \<open>The sample run\<close>

lemma list_images_example:
  "list_images env_example (py ''cards'') = Inr paths_example"
proof -
  have "list_images env_example (py ''cards'') =
          Inr (sort (map (os_path_join (py ''cards''))
                 (filter (\<lambda>f. endswith (lower f) supported_extensions) dir_example)))"
    by (simp add: list_images_def env_example_def)
  also have "\<dots> = Inr paths_example"
    by (simp add: dir_example_def py_def endswith_def endswith1_def paths_example_def
        lower_def lower_cp_def supported_extensions_def os_path_join_def sep_def)
  finally show ?thesis .
qed

lemma load_image_example:
  "load_image env_example (py ''cards/a.jpg'') = Some reader_example"
  "load_image env_example (py ''cards/b.PNG'') = None"
proof -
  have "alpha_composite (image_new (isize img_example) white) img_example = Inr img_example"
    by (rule alpha_composite_white_opaque) (simp_all add: img_example_def wf_image_def alpha_def)
  then show "load_image env_example (py ''cards/a.jpg'') = Some reader_example"
    by (simp add: load_image_def env_example_def)
      (simp add: convert_RGB_def img_example_def reader_example_def drop_alpha_def)
  show "load_image env_example (py ''cards/b.PNG'') = None"
    by (simp add: load_image_def env_example_def py_def)
qed

lemma run_example:
  assumes "listdir env = listdir env_example" and "open_rgba env = open_rgba env_example"
      and "writable env (py ''cards.pdf'')" and "stdout_error env = stdout_error env_example"
      and "flush_error env = flush_error env_example"
  shows "create_pdf_from_folder env (py ''cards'') (py ''cards.pdf'') =
           Some (Inr (out_example env))"
proof -
  have names: "listdir env (py ''cards'') = Inr dir_example"
    by (simp add: assms(1) env_example_def)
  have "list_images env (py ''cards'') = list_images env_example (py ''cards'')"
    by (simp add: list_images_def assms(1))
  then have paths: "sort (map (os_path_join (py ''cards''))
             (filter (\<lambda>f. endswith (lower f) supported_extensions) dir_example)) = paths_example"
    using list_images_example by (simp add: list_images_def names)
  have "load_image env = load_image env_example"
    by (simp add: fun_eq_iff load_image_def assms(2))
  then have loaded: "map (\<lambda>p. (p, load_image env p)) paths_example = loaded_example"
    by (simp add: paths_example_def loaded_example_def load_image_example)
  have pages: "num_pages (length paths_example) = 1"
    by (simp add: paths_example_def num_pages_def cards_per_page_def)
  have accepts: "console_accepts env (py ''cards.pdf'')"
    by (rule console_accepts_all) (simp add: assms(4,5) env_example_def)
  have n: "length paths_example = 2"
    by (simp add: paths_example_def)
  obtain r where r: "create_pdf_from_folder env (py ''cards'') (py ''cards.pdf'') = Some r"
    and y: "yields (console_accepts env (py ''cards.pdf'') \<and> writable env (py ''cards.pdf'')) r
               \<lparr>out_paths = paths_example, out_loaded = loaded_example,
                document = map (page_ops env loaded_example) [0..<num_pages (length paths_example)],
                out_card_index = length paths_example,
                out_progress = map (\<lambda>k. (Suc k, length paths_example)) [0..<length paths_example],
                out_console = console_messages (length paths_example) (py ''cards.pdf'')\<rparr>"
    using create_pdf_from_folder_yields [OF names, of "py ''cards.pdf''"]
    unfolding paths loaded by blast
  have "r = Inr \<lparr>out_paths = paths_example, out_loaded = loaded_example,
                document = map (page_ops env loaded_example) [0..<num_pages (length paths_example)],
                out_card_index = length paths_example,
                out_progress = map (\<lambda>k. (Suc k, length paths_example)) [0..<length paths_example],
                out_console = console_messages (length paths_example) (py ''cards.pdf'')\<rparr>"
    using y accepts assms(3) by (rule_tac yields_accepted) simp_all
  also have "\<dots> = Inr (out_example env)"
  proof -
    have "num_pages 2 = 1"
      by (simp add: num_pages_def cards_per_page_def)
    then show ?thesis
      by (simp add: n out_example_def upt_rec)
  qed
  finally show ?thesis
    using r by simp
qed

lemma document_example:
  "document (out_example env) ! 0 = page_ops env loaded_example 0"
  "length (document (out_example env)) = 1"
  "out_paths (out_example env) = paths_example"
  "out_loaded (out_example env) = loaded_example"
  by (simp_all add: out_example_def)

lemma list_images_ten: "list_images env_ten (py ''cards'') = Inr paths_ten"
proof -
  have "list_images env_ten (py ''cards'') =
          Inr (sort (map (os_path_join (py ''cards''))
                 (filter (\<lambda>f. endswith (lower f) supported_extensions) dir_ten)))"
    by (simp add: list_images_def env_ten_def)
  also have "\<dots> = Inr paths_ten"
    by (simp add: dir_ten_def py_def endswith_def endswith1_def paths_ten_def
        lower_def lower_cp_def supported_extensions_def os_path_join_def sep_def)
  finally show ?thesis .
qed

lemma list_images_empty: "list_images env_empty image_folder = Inr []"
  by (simp add: list_images_def env_empty_def)

text \<open>On a console without the characters of the first message the run raises at once.\<close>

lemma run_ascii_console:
  "create_pdf_from_folder env_ascii (py ''cards'') (py ''cards.pdf'') = Some (Inl UnicodeEncodeError)"
proof -
  have "stdout_error env_ascii msg_loading = Some UnicodeEncodeError"
    by (simp add: env_ascii_def msg_loading_def)
  moreover have "list_images env_ascii (py ''cards'') = Inr paths_example"
    using list_images_example by (simp add: list_images_def env_ascii_def)
  ultimately show ?thesis
    by (simp add: create_pdf_from_folder_def print_def stdout_write_def)
qed

section \<open>Layout arithmetic\<close>

lemma mm_pos: "0 < mm"
  by (simp add: mm_def cm_def inch_def)

lemma num_pages_ceiling: "num_pages n = max 1 (nat \<lceil>rat_of_nat n / 9\<rceil>)"
proof (cases "n = 0")
  case True
  then show ?thesis by (simp add: num_pages_def)
next
  case False
  have "\<lceil>rat_of_nat n / 9\<rceil> = - (- int n div 9)"
    using ceiling_divide_eq_div [of "int n" 9, where ?'a = rat] by simp
  also have "\<dots> = int ((n + 8) div 9)"
    by (simp add: zdiv_int)
  finally have c: "nat \<lceil>rat_of_nat n / 9\<rceil> = (n + 8) div 9"
    by simp
  have "1 \<le> (n + 8) div 9"
    using False by presburger
  with False show ?thesis
    by (simp add: num_pages_def cards_per_page_def c max_def)
qed


section \<open>The layout in double precision\<close>


















section \<open>Reading a rendered page\<close>

subsection \<open>Reading the cards of a page\<close>

lemma card_origins_append: "card_origins (a @ b) = card_origins a @ card_origins b"
  by (simp add: card_origins_def)

lemma gap_less_card: "gap < card_width" "gap < card_height"
  using mm_pos by (simp_all add: gap_def card_width_def card_height_def)

lemma card_origins_card_ops: "card_origins (card_ops env img_obj x y) = [(x, y)]"
  by (simp add: card_origins_def card_ops_def placeholder_ops_def split: option.splits)

lemma card_origins_guide_ops: "card_origins guide_ops = []"
proof -
  have "card_origins (concat (map (\<lambda>(v, h).
               [SetLineWidth (1 / 2),
                Rect (left_margin + of_nat v * (card_width + gap))
                     (bottom_margin + of_nat h * (card_height + gap)) gap gap]) cells)) = []"
    for cells :: "(nat \<times> nat) list"
    using gap_less_card
    by (induction cells) (auto simp: card_origins_def)
  then show ?thesis
    by (simp add: guide_ops_def)
qed

lemma card_origins_cells_ops:
  "card_origins (cells_ops env loaded i cells) =
     map (\<lambda>(row, col). (cell_x col, cell_y row)) (take (length loaded - i) cells)"
proof (induction cells arbitrary: i)
  case Nil
  then show ?case by (simp add: card_origins_def)
next
  case (Cons cell cells)
  obtain row col where cell: "cell = (row, col)"
    by (cases cell) auto
  show ?case
  proof (cases "i < length loaded")
    case True
    then have "length loaded - i = Suc (length loaded - Suc i)"
      by simp
    then show ?thesis
      using True by (simp add: cell card_origins_append card_origins_card_ops Cons.IH)
  next
    case False
    then show ?thesis
      by (simp add: cell cells_ops_exhausted card_origins_def)
  qed
qed

lemma card_origins_page:
  "card_origins (page_ops env loaded page) =
     map (\<lambda>(row, col). (cell_x col, cell_y row))
       (take (length loaded - page * cards_per_page) page_cells)"
  by (simp add: page_ops_def card_origins_append card_origins_cells_ops card_origins_guide_ops)

lemma page_cells_nth:
  assumes "row < rows" and "col < columns"
  shows "page_cells ! (row * columns + col) = (row, col)"
proof -
  have "row * columns + col < rows * columns"
  proof -
    have "row * columns + col < row * columns + columns"
      using assms(2) by simp
    also have "\<dots> = Suc row * columns"
      by simp
    also have "\<dots> \<le> rows * columns"
      using assms(1) by (intro mult_le_mono1) simp
    finally show ?thesis .
  qed
  then have "List.product [0..<rows] [0..<columns] ! (row * columns + col) =
      ([0..<rows] ! ((row * columns + col) div length [0..<columns]),
       [0..<columns] ! ((row * columns + col) mod length [0..<columns]))"
    by (intro List.product_nth) simp
  then show ?thesis
    using assms by (simp add: page_cells_def)
qed

lemma cell_index_less:
  assumes "row < rows" and "col < columns"
  shows "row * columns + col < cards_per_page"
  using assms by (simp add: rows_def columns_def cards_per_page_def)

subsection \<open>Reading the guides of a page\<close>








subsection \<open>The cells of a page by index\<close>

lemma page_cells_eq:
  "page_cells = [(0, 0), (0, 1), (0, 2), (1, 0), (1, 1), (1, 2), (2, 0), (2, 1), (2, 2)]"
  by (simp add: page_cells_def rows_def columns_def upt_rec)

lemma cells_ops_page_cells:
  "cells_ops env loaded i page_cells =
     concat (map (\<lambda>(row, col).
                if i + row * columns + col < length loaded
                then card_ops env (snd (loaded ! (i + row * columns + col)))
                       (cell_x col) (cell_y row)
                else [])
             page_cells)"
  by (simp add: page_cells_eq columns_def eval_nat_numeral)

lemma num_pages_enough: "n \<le> num_pages n * cards_per_page"
  using num_pages_covers [of n] by (simp add: min_def split: if_splits)

subsection \<open>Finding an entry on its page\<close>

lemma cells_ops_split:
  assumes "j < length cells" and "i + j < length loaded"
  shows "\<exists>before after. cells_ops env loaded i cells =
           before @ card_ops env (snd (loaded ! (i + j)))
                      (cell_x (snd (cells ! j))) (cell_y (fst (cells ! j))) @ after"
  using assms
proof (induction cells arbitrary: i j)
  case Nil
  then show ?case by simp
next
  case (Cons cell cells)
  obtain row col where cell: "cell = (row, col)"
    by (cases cell) auto
  show ?case
  proof (cases j)
    case 0
    with Cons.prems have "cells_ops env loaded i (cell # cells) =
        [] @ card_ops env (snd (loaded ! (i + j))) (cell_x (snd ((cell # cells) ! j)))
               (cell_y (fst ((cell # cells) ! j))) @ cells_ops env loaded (Suc i) cells"
      by (simp add: cell)
    then show ?thesis by blast
  next
    case (Suc j')
    with Cons.prems have "j' < length cells" "Suc i + j' < length loaded"
      by simp_all
    then obtain before after where
      "cells_ops env loaded (Suc i) cells =
         before @ card_ops env (snd (loaded ! (Suc i + j')))
                    (cell_x (snd (cells ! j'))) (cell_y (fst (cells ! j'))) @ after"
      using Cons.IH by blast
    then have "cells_ops env loaded i (cell # cells) =
        ((if i < length loaded
          then card_ops env (snd (loaded ! i)) (cell_x col) (cell_y row) else []) @ before)
        @ card_ops env (snd (loaded ! (i + j))) (cell_x (snd ((cell # cells) ! j)))
               (cell_y (fst ((cell # cells) ! j))) @ after"
      by (simp add: cell Suc)
    then show ?thesis by blast
  qed
qed

lemma page_shows_entry:
  assumes "k < length loaded"
  shows "\<exists>before after. page_ops env loaded (k div cards_per_page) =
           before @ card_ops env (snd (loaded ! k))
                      (cell_x (k mod columns)) (cell_y (k mod cards_per_page div columns)) @ after"
proof -
  define j where "j = k mod cards_per_page"
  have j: "j < length page_cells"
    by (simp add: j_def length_page_cells cards_per_page_def)
  have k: "k div cards_per_page * cards_per_page + j = k"
    by (simp add: j_def)
  have rc: "j div columns < rows" "j mod columns < columns"
    using j by (simp_all add: length_page_cells cards_per_page_def rows_def columns_def)
  have "page_cells ! (j div columns * columns + j mod columns) = (j div columns, j mod columns)"
    using rc by (rule page_cells_nth)
  then have cell: "page_cells ! j = (j div columns, j mod columns)"
    by simp
  have "j mod columns = k mod columns"
    by (simp add: j_def cards_per_page_def columns_def mod_mod_cancel)
  with cell have cell': "snd (page_cells ! j) = k mod columns"
      "fst (page_cells ! j) = k mod cards_per_page div columns"
    by (simp_all add: j_def)
  obtain before after where
    "cells_ops env loaded (k div cards_per_page * cards_per_page) page_cells =
       before @ card_ops env (snd (loaded ! (k div cards_per_page * cards_per_page + j)))
                  (cell_x (snd (page_cells ! j))) (cell_y (fst (page_cells ! j))) @ after"
    using cells_ops_split [OF j, of "k div cards_per_page * cards_per_page" loaded env] assms k
    by auto
  then have "page_ops env loaded (k div cards_per_page) =
       before @ card_ops env (snd (loaded ! k))
                  (cell_x (k mod columns)) (cell_y (k mod cards_per_page div columns))
       @ (after @ guide_ops)"
    by (simp add: page_ops_def k cell')
  then show ?thesis by blast
qed

lemma entry_page_exists:
  assumes "k < n"
  shows "k div cards_per_page < num_pages n"
proof -
  have "n \<le> num_pages n * cards_per_page"
    by (rule num_pages_enough)
  with assms have "k < num_pages n * cards_per_page"
    by simp
  then show ?thesis
    by (simp add: cards_per_page_def less_mult_imp_div_less)
qed

lemma load_image_fails: "open_rgba env path = Inl e \<Longrightarrow> load_image env path = None"
  by (simp add: load_image_def)

lemma load_image_None: "load_image env path = None \<longleftrightarrow> (\<exists>e. open_rgba env path = Inl e)"
proof (cases "open_rgba env path")
  case (Inl e)
  then show ?thesis by (simp add: load_image_def)
next
  case (Inr img)
  then show ?thesis
    by (simp add: load_image_def alpha_composite_def image_new_def)
qed

section \<open>The claims\<close>

text \<open>
  C1. On every page the cards are drawn row after row and left to right, and the card
  of the cell in row \<open>row\<close> and column \<open>col\<close> has its lower-left corner at
  \<open>(leftMargin + gap + col * (cardWidth + gap),
     bottomMargin + gap + (rows - 1 - row) * (cardHeight + gap))\<close>.
  A lower row index is higher on the page and a lower column index is further left.
\<close>

theorem cell_placement:
  assumes "create_pdf_from_folder env image_folder output_filename = Some (Inr out)"
      and "row < rows" and "col < columns"
      and "page * cards_per_page + row * columns + col < length (out_paths out)"
  shows "page < length (document out)
         \<and> card_origins (document out ! page) ! (row * columns + col) =
           (left_margin + gap + of_nat col * (card_width + gap),
            bottom_margin + gap + of_nat (rows - 1 - row) * (card_height + gap))
         \<and> (\<forall>row'. row < row' \<and> row' < rows \<longrightarrow>
               bottom_margin + gap + of_nat (rows - 1 - row') * (card_height + gap)
               < bottom_margin + gap + of_nat (rows - 1 - row) * (card_height + gap))
         \<and> (\<forall>col'. col < col' \<and> col' < columns \<longrightarrow>
               left_margin + gap + of_nat col * (card_width + gap)
               < left_margin + gap + of_nat col' * (card_width + gap))"
proof -
  have len: "length (out_loaded out) = length (out_paths out)"
    by (simp add: run_returns(1) [OF assms(1)])
  have "page * cards_per_page \<le> page * cards_per_page + row * columns + col"
    by simp
  then have "page \<le> (page * cards_per_page + row * columns + col) div cards_per_page"
    by (simp add: cards_per_page_def less_eq_div_iff_mult_less_eq)
  also have "\<dots> < num_pages (length (out_paths out))"
    using assms(4) by (rule entry_page_exists)
  finally have exists: "page < length (document out)"
    by (simp add: run_returns(2) [OF assms(1)])
  then have page: "document out ! page = page_ops env (out_loaded out) page"
    by (simp add: run_returns(2) [OF assms(1)])
  have k: "row * columns + col < length (out_loaded out) - page * cards_per_page"
    using assms(4) len by simp
  have "card_origins (document out ! page) ! (row * columns + col) =
      (\<lambda>(row, col). (cell_x col, cell_y row)) (page_cells ! (row * columns + col))"
    using k cell_index_less [OF assms(2,3)]
    by (simp add: page card_origins_page length_page_cells)
  also have "\<dots> = (cell_x col, cell_y row)"
    by (simp add: page_cells_nth [OF assms(2,3)])
  also have "cell_y row = bottom_margin + gap + of_nat (rows - 1 - row) * (card_height + gap)"
  proof -
    have "int rows - 1 - int row = int (rows - 1 - row)"
      using assms(2) by simp
    then show ?thesis
      by (simp only: cell_y_def of_int_of_nat_eq)
  qed
  finally have origin: "card_origins (document out ! page) ! (row * columns + col) =
           (left_margin + gap + of_nat col * (card_width + gap),
            bottom_margin + gap + of_nat (rows - 1 - row) * (card_height + gap))"
    by (simp add: cell_x_def)
  have pos: "0 < card_height + gap" "0 < card_width + gap"
    using mm_pos by (simp_all add: card_height_def card_width_def gap_def)
  have up: "bottom_margin + gap + of_nat (rows - 1 - row') * (card_height + gap)
               < bottom_margin + gap + of_nat (rows - 1 - row) * (card_height + gap)"
    if "row < row'" "row' < rows" for row'
  proof -
    have "rows - 1 - row' < rows - 1 - row"
      using that by simp
    then have "(of_nat (rows - 1 - row') :: rat) < of_nat (rows - 1 - row)"
      by (simp only: of_nat_less_iff)
    then show ?thesis
      using pos(1) by simp
  qed
  have left: "left_margin + gap + of_nat col * (card_width + gap)
               < left_margin + gap + of_nat col' * (card_width + gap)"
    if "col < col'" for col'
  proof -
    have "(of_nat col :: rat) < of_nat col'"
      using that by simp
    then show ?thesis
      using pos(2) by simp
  qed
  from exists origin up left show ?thesis
    by blast
qed

theorem cell_placement_witness:
  "create_pdf_from_folder env_example (py ''cards'') (py ''cards.pdf'') =
     Some (Inr (out_example env_example))
   \<and> 0 < length (document (out_example env_example))
   \<and> 0 < rows \<and> 1 < columns
   \<and> 0 * cards_per_page + 0 * columns + 1 < length (out_paths (out_example env_example))
   \<and> card_origins (document (out_example env_example) ! 0) ! (0 * columns + 1) =
       (151 / 2 * mm, 387 / 2 * mm)"
proof -
  have run: "create_pdf_from_folder env_example (py ''cards'') (py ''cards.pdf'') =
          Some (Inr (out_example env_example))"
    by (intro run_example) (simp_all add: env_example_def)
  have h2: "0 < length (document (out_example env_example))"
    by (simp add: document_example)
  have h3: "0 < rows" and h4: "1 < columns"
    by (simp_all add: rows_def columns_def)
  have h5: "0 * cards_per_page + 0 * columns + 1 < length (out_paths (out_example env_example))"
    by (simp add: document_example paths_example_def)
  have x: "left_margin + gap + of_nat 1 * (card_width + gap) = 151 / 2 * mm"
    by (simp add: left_margin_def page_width_def A4_def grid_width_def columns_def
        card_width_def gap_def)
  have y: "bottom_margin + gap + of_nat (rows - 1 - 0) * (card_height + gap) = 387 / 2 * mm"
    by (simp add: bottom_margin_def page_height_def A4_def grid_height_def rows_def
        card_height_def gap_def)
  have "card_origins (document (out_example env_example) ! 0) ! (0 * columns + 1) =
       (151 / 2 * mm, 387 / 2 * mm)"
    using cell_placement [OF run h3 h4 h5] by (simp only: x y)
  with run h2 h3 h4 h5 show ?thesis
    by blast
qed

text \<open>
  C2. A run over a readable folder with a writable output file, on a console that
  accepts its messages, returns, and the document it writes has
  \<open>max(1, ceil(N / 9))\<close> pages for \<open>N\<close> enumerated images: one page for 0 and for 9
  images, two pages for 10 and for 18. Without images the one page holds the cut
  guides and nothing else.
\<close>

theorem page_count:
  assumes "listdir env image_folder = Inr names" and "writable env output_filename"
      and "console_accepts env output_filename"
  shows "(\<exists>out. create_pdf_from_folder env image_folder output_filename = Some (Inr out)
            \<and> length (document out) = max 1 (nat \<lceil>rat_of_nat (length (out_paths out)) / 9\<rceil>)
            \<and> (length (out_paths out) = 0 \<longrightarrow> document out = [guide_ops]))
         \<and> num_pages 0 = 1 \<and> num_pages 9 = 1 \<and> num_pages 10 = 2 \<and> num_pages 18 = 2"
proof -
  obtain out where out: "create_pdf_from_folder env image_folder output_filename = Some (Inr out)"
    using run_completes [OF assms] by blast
  note doc = run_returns(2) [OF out]
  have "length (document out) = num_pages (length (out_paths out))"
    by (simp add: doc)
  then have pages: "length (document out) =
      max 1 (nat \<lceil>rat_of_nat (length (out_paths out)) / 9\<rceil>)"
    by (simp only: num_pages_ceiling)
  have blank: "document out = [guide_ops]" if "length (out_paths out) = 0"
  proof -
    have "out_loaded out = []"
      using that by (simp add: run_returns(1) [OF out])
    then show ?thesis
      using that by (simp add: doc num_pages_def page_ops_def cells_ops_exhausted)
  qed
  have "num_pages 0 = 1" "num_pages 9 = 1" "num_pages 10 = 2" "num_pages 18 = 2"
    by (simp_all add: num_pages_def cards_per_page_def)
  with out pages blank show ?thesis
    by blast
qed

theorem page_count_witness:
  "listdir env_empty (py ''cards'') = Inr []
   \<and> writable env_empty (py ''cards.pdf'')
   \<and> console_accepts env_empty (py ''cards.pdf'')
   \<and> (\<exists>out. create_pdf_from_folder env_empty (py ''cards'') (py ''cards.pdf'') = Some (Inr out)
       \<and> length (out_paths out) = 0 \<and> document out = [guide_ops])
   \<and> listdir env_ten (py ''cards'') = Inr dir_ten
   \<and> writable env_ten (py ''cards.pdf'')
   \<and> console_accepts env_ten (py ''cards.pdf'')
   \<and> (\<exists>out. create_pdf_from_folder env_ten (py ''cards'') (py ''cards.pdf'') = Some (Inr out)
       \<and> length (out_paths out) = 10 \<and> length (document out) = 2)"
proof -
  have e1: "listdir env_empty (py ''cards'') = Inr []"
    by (simp add: env_empty_def)
  have e2: "writable env_empty (py ''cards.pdf'')"
    by (simp add: env_empty_def env_example_def)
  have e3: "console_accepts env_empty (py ''cards.pdf'')"
    by (rule console_accepts_all) (simp add: env_empty_def env_example_def)
  from page_count [OF e1 e2 e3] obtain out0 where
    run0: "create_pdf_from_folder env_empty (py ''cards'') (py ''cards.pdf'') = Some (Inr out0)"
    and blank: "length (out_paths out0) = 0 \<longrightarrow> document out0 = [guide_ops]"
    by blast
  have n0: "length (out_paths out0) = 0"
    using run_returns(5) [OF run0] by (simp add: list_images_empty)
  have t1: "listdir env_ten (py ''cards'') = Inr dir_ten"
    by (simp add: env_ten_def)
  have t2: "writable env_ten (py ''cards.pdf'')"
    by (simp add: env_ten_def)
  have t3: "console_accepts env_ten (py ''cards.pdf'')"
    by (rule console_accepts_all) (simp add: env_ten_def)
  from page_count [OF t1 t2 t3] obtain out10 where
    run10: "create_pdf_from_folder env_ten (py ''cards'') (py ''cards.pdf'') = Some (Inr out10)"
    and pages: "length (document out10) =
                  max 1 (nat \<lceil>rat_of_nat (length (out_paths out10)) / 9\<rceil>)"
    by blast
  have "out_paths out10 = paths_ten"
    using run_returns(5) [OF run10] by (simp add: list_images_ten)
  then have n10: "length (out_paths out10) = 10"
    by (simp add: paths_ten_def)
  have "length (document out10) = max 1 (nat \<lceil>rat_of_nat 10 / 9\<rceil>)"
    by (simp only: pages n10)
  also have "\<dots> = num_pages 10"
    by (simp only: num_pages_ceiling)
  also have "\<dots> = 2"
    by (simp add: num_pages_def cards_per_page_def)
  finally have "length (document out10) = 2" .
  with e1 e2 e3 t1 t2 t3 run0 n0 blank run10 n10 show ?thesis
    by blast
qed

text \<open>
  C3. For a readable directory, the image paths the run considers are the full paths of
  exactly the entries whose name, in lower case, ends in a dot and one of \<open>jpg\<close>,
  \<open>jpeg\<close>, \<open>png\<close>, \<open>bmp\<close>, \<open>gif\<close>, in the lexicographic order of the file names.
  Entry names contain no slash.
\<close>

theorem image_enumeration:
  assumes "listdir env image_folder = Inr names"
      and "\<forall>f \<in> set names. sep \<notin> set f"
  shows "list_images env image_folder = Inr (spec_image_sequence image_folder names)"
proof -
  have "\<forall>f \<in> set (filter spec_has_image_extension names). sep \<notin> set f"
    using assms(2) by simp
  then show ?thesis
    using assms(1)
    by (simp add: list_images_def spec_image_sequence_def endswith_supported sort_joined)
qed

theorem image_enumeration_witness:
  "listdir env_example (py ''cards'') = Inr dir_example
   \<and> list_all (\<lambda>f. sep \<notin> set f) dir_example
   \<and> list_images env_example (py ''cards'') =
       Inr (spec_image_sequence (py ''cards'') dir_example)
   \<and> list_images env_example (py ''cards'') = Inr [py ''cards/a.jpg'', py ''cards/b.PNG'']"
proof -
  have h1: "listdir env_example (py ''cards'') = Inr dir_example"
    by (simp add: env_example_def)
  have h2: "\<forall>f \<in> set dir_example. sep \<notin> set f"
    by (simp add: dir_example_def py_def sep_def)
  have "list_images env_example (py ''cards'') = Inr [py ''cards/a.jpg'', py ''cards/b.PNG'']"
    using list_images_example by (simp add: paths_example_def)
  with h1 h2 image_enumeration [OF h1 h2] show ?thesis
    by (simp add: list_all_iff)
qed

text \<open>
  C4. Whatever the order in which the workers finish, \<open>preload_images\<close> returns, for
  the paths in the order given, each path with the result of loading that path: the
  result has the length and the order of the input. Every order in which the loads
  can finish is the order of some scheduler.
\<close>

theorem preload_order:
  "preload_images env pick paths =
     Some (map (\<lambda>path. (path, load_image env path)) paths)
   \<and> map_option length (preload_images env pick paths) = Some (length paths)
   \<and> map_option (map fst) (preload_images env pick paths) = Some paths
   \<and> map_option (map snd) (preload_images env pick paths) = Some (map (load_image env) paths)
   \<and> (\<forall>order. distinct order \<and> set order = {0..<length paths} \<longrightarrow>
          (\<exists>pick'. completion_order pick' (length paths) [0..<length paths] = order))"
proof -
  have readers: "executor_map pick (load_image env) paths = Some (map (load_image env) paths)"
    by (rule executor_map_eq)
  have "preload_images env pick paths = Some (zip paths (map (load_image env) paths))"
    by (simp add: preload_images_def readers)
  also have "zip paths (map (load_image env) paths) =
      map (\<lambda>path. (path, load_image env path)) paths"
    by (simp add: zip_map2 zip_same_conv_map)
  finally have result: "preload_images env pick paths =
      Some (map (\<lambda>path. (path, load_image env path)) paths)" .
  have "map fst (map (\<lambda>path. (path, load_image env path)) paths) = paths"
    "map snd (map (\<lambda>path. (path, load_image env path)) paths) = map (load_image env) paths"
    by (simp_all add: comp_def)
  moreover have "\<exists>pick'. completion_order pick' (length paths) [0..<length paths] = order"
    if "distinct order" "set order = {0..<length paths}" for order
    using every_completion_order_possible [of order "[0..<length paths]"] that by simp
  ultimately show ?thesis
    using result by simp
qed

theorem preload_order_witness:
  "completion_order (\<lambda>n. 1) 2 [0..<2] = [1, 0]
   \<and> preload_images env_example (\<lambda>n. 1) paths_example =
       Some [(py ''cards/a.jpg'', Some reader_example), (py ''cards/b.PNG'', None)]"
proof -
  have "completion_order (\<lambda>n. 1) 2 [0..<2] = [1, 0]"
    by (simp add: eval_nat_numeral upt_rec)
  moreover have "preload_images env_example (\<lambda>n. 1) paths_example =
       Some [(py ''cards/a.jpg'', Some reader_example), (py ''cards/b.PNG'', None)]"
    using preload_order [of env_example "\<lambda>n. 1" paths_example]
    by (simp add: paths_example_def load_image_example)
  ultimately show ?thesis
    by blast
qed

text \<open>
  C5. A path loads as \<open>None\<close> exactly when its file cannot be opened or decoded; the
  exception does not leave \<open>load_image\<close>. A run over a readable folder with a writable
  output file, on a console that accepts its messages, returns with
  \<open>max(1, ceil(N / 9))\<close> pages, and the cell of every path that loads as \<open>None\<close> holds
  the outline of a card and the label of six characters U+52A0, U+8F7D, U+56FE,
  U+7247, U+9519, U+8BEF.
\<close>

theorem load_failure_placeholder:
  assumes "listdir env image_folder = Inr names" and "writable env output_filename"
      and "console_accepts env output_filename"
  shows "(\<forall>path. load_image env path = None \<longleftrightarrow> (\<exists>e. open_rgba env path = Inl e))
         \<and> (\<exists>out. create_pdf_from_folder env image_folder output_filename = Some (Inr out)
              \<and> length (document out) = max 1 (nat \<lceil>rat_of_nat (length (out_paths out)) / 9\<rceil>)
              \<and> (\<forall>k. k < length (out_paths out) \<and> load_image env (out_paths out ! k) = None \<longrightarrow>
                    out_loaded out ! k = (out_paths out ! k, None)
                    \<and> (\<exists>before after.
                          document out ! (k div cards_per_page) =
                            before
                            @ [Rect (cell_x (k mod columns)) (cell_y (k mod cards_per_page div columns))
                                 card_width card_height,
                               DrawString (cell_x (k mod columns) + 5)
                                 (cell_y (k mod cards_per_page div columns) + card_height / 2)
                                 [0x52A0, 0x8F7D, 0x56FE, 0x7247, 0x9519, 0x8BEF]]
                            @ after)))"
proof -
  obtain out where out: "create_pdf_from_folder env image_folder output_filename = Some (Inr out)"
    using run_completes [OF assms] by blast
  note loaded = run_returns(1) [OF out]
  note doc = run_returns(2) [OF out]
  have pages: "length (document out) =
      max 1 (nat \<lceil>rat_of_nat (length (out_paths out)) / 9\<rceil>)"
    by (simp add: doc num_pages_ceiling)
  have cell: "out_loaded out ! k = (out_paths out ! k, None)
      \<and> (\<exists>before after.
            document out ! (k div cards_per_page) =
              before
              @ [Rect (cell_x (k mod columns)) (cell_y (k mod cards_per_page div columns))
                   card_width card_height,
                 DrawString (cell_x (k mod columns) + 5)
                   (cell_y (k mod cards_per_page div columns) + card_height / 2)
                   [0x52A0, 0x8F7D, 0x56FE, 0x7247, 0x9519, 0x8BEF]]
              @ after)"
    if k: "k < length (out_paths out)" and e: "load_image env (out_paths out ! k) = None"
    for k
  proof -
    have entry: "out_loaded out ! k = (out_paths out ! k, None)"
      using k by (simp add: loaded e)
    have len: "k < length (out_loaded out)"
      using k by (simp add: loaded)
    have "document out ! (k div cards_per_page) =
        page_ops env (out_loaded out) (k div cards_per_page)"
      using entry_page_exists [OF k] by (simp add: doc)
    moreover obtain before after where
      "page_ops env (out_loaded out) (k div cards_per_page) =
         before @ card_ops env (snd (out_loaded out ! k))
                    (cell_x (k mod columns)) (cell_y (k mod cards_per_page div columns)) @ after"
      using page_shows_entry [OF len] by blast
    ultimately have "document out ! (k div cards_per_page) =
              before
              @ [Rect (cell_x (k mod columns)) (cell_y (k mod cards_per_page div columns))
                   card_width card_height,
                 DrawString (cell_x (k mod columns) + 5)
                   (cell_y (k mod cards_per_page div columns) + card_height / 2)
                   [0x52A0, 0x8F7D, 0x56FE, 0x7247, 0x9519, 0x8BEF]]
              @ after"
      by (simp add: entry card_ops_def placeholder_ops_def error_label_def)
    with entry show ?thesis by blast
  qed
  from out pages cell load_image_None show ?thesis
    by blast
qed

theorem load_failure_placeholder_witness:
  "listdir env_example (py ''cards'') = Inr dir_example
   \<and> writable env_example (py ''cards.pdf'')
   \<and> console_accepts env_example (py ''cards.pdf'')
   \<and> open_rgba env_example (py ''cards/b.PNG'') = Inl ImageError
   \<and> load_image env_example (py ''cards/b.PNG'') = None
   \<and> (\<exists>out. create_pdf_from_folder env_example (py ''cards'') (py ''cards.pdf'') = Some (Inr out)
          \<and> length (document out) = 1
          \<and> out_paths out ! 1 = py ''cards/b.PNG''
          \<and> out_loaded out ! 1 = (py ''cards/b.PNG'', None)
          \<and> (\<exists>before after.
                document out ! 0 =
                  before
                  @ [Rect (cell_x 1) (cell_y 0) card_width card_height,
                     DrawString (cell_x 1 + 5) (cell_y 0 + card_height / 2)
                       [0x52A0, 0x8F7D, 0x56FE, 0x7247, 0x9519, 0x8BEF]]
                  @ after))"
proof -
  have h1: "listdir env_example (py ''cards'') = Inr dir_example"
    by (simp add: env_example_def)
  have h2: "writable env_example (py ''cards.pdf'')"
    by (simp add: env_example_def)
  have h3: "console_accepts env_example (py ''cards.pdf'')"
    by (rule console_accepts_all) (simp add: env_example_def)
  have e: "open_rgba env_example (py ''cards/b.PNG'') = Inl ImageError"
    by (simp add: env_example_def py_def)
  note claim = load_failure_placeholder [OF h1 h2 h3]
  from claim e have none: "load_image env_example (py ''cards/b.PNG'') = None"
    by blast
  from claim obtain out where
    run: "create_pdf_from_folder env_example (py ''cards'') (py ''cards.pdf'') = Some (Inr out)"
    and cells: "\<forall>k. k < length (out_paths out) \<and> load_image env_example (out_paths out ! k) = None \<longrightarrow>
                    out_loaded out ! k = (out_paths out ! k, None)
                    \<and> (\<exists>before after.
                          document out ! (k div cards_per_page) =
                            before
                            @ [Rect (cell_x (k mod columns)) (cell_y (k mod cards_per_page div columns))
                                 card_width card_height,
                               DrawString (cell_x (k mod columns) + 5)
                                 (cell_y (k mod cards_per_page div columns) + card_height / 2)
                                 [0x52A0, 0x8F7D, 0x56FE, 0x7247, 0x9519, 0x8BEF]]
                            @ after)"
    by blast
  have "create_pdf_from_folder env_example (py ''cards'') (py ''cards.pdf'') =
          Some (Inr (out_example env_example))"
    by (intro run_example) (simp_all add: env_example_def)
  with run have out: "out = out_example env_example"
    by simp
  have p: "out_paths out ! 1 = py ''cards/b.PNG''" "1 < length (out_paths out)"
    by (simp_all add: out document_example paths_example_def)
  have one: "length (document out) = 1"
    by (simp add: out document_example)
  have idx: "1 div cards_per_page = 0" "1 mod columns = 1" "1 mod cards_per_page div columns = 0"
    by (simp_all add: cards_per_page_def columns_def)
  from cells p none have "out_loaded out ! 1 = (out_paths out ! 1, None)
                    \<and> (\<exists>before after.
                          document out ! (1 div cards_per_page) =
                            before
                            @ [Rect (cell_x (1 mod columns)) (cell_y (1 mod cards_per_page div columns))
                                 card_width card_height,
                               DrawString (cell_x (1 mod columns) + 5)
                                 (cell_y (1 mod cards_per_page div columns) + card_height / 2)
                                 [0x52A0, 0x8F7D, 0x56FE, 0x7247, 0x9519, 0x8BEF]]
                            @ after)"
    by metis
  then have "out_loaded out ! 1 = (py ''cards/b.PNG'', None)
          \<and> (\<exists>before after.
                document out ! 0 =
                  before
                  @ [Rect (cell_x 1) (cell_y 0) card_width card_height,
                     DrawString (cell_x 1 + 5) (cell_y 0 + card_height / 2)
                       [0x52A0, 0x8F7D, 0x56FE, 0x7247, 0x9519, 0x8BEF]]
                  @ after)"
    by (simp only: idx p)
  with h1 h2 h3 e none run one p show ?thesis
    by blast
qed





text \<open>
  C8. For an image without a transparent pixel, compositing over a white background of
  the same size gives back the image, and the loader returns the image with the alpha
  channel dropped: the pixels shown are those of the input.
\<close>

theorem opaque_load_identity:
  assumes "open_rgba env path = Inr img"
      and "wf_image img"
      and "\<forall>p \<in> set (pixels img). alpha p = 255"
  shows "alpha_composite (image_new (isize img) white) img = Inr img
         \<and> load_image env path = Some (ImageReader (convert_RGB img))"
  using assms alpha_composite_white_opaque [OF assms(2,3)]
  by (simp add: load_image_def)

theorem opaque_load_identity_witness:
  "open_rgba env_example (py ''cards/a.jpg'') = Inr img_example
   \<and> wf_image img_example
   \<and> list_all (\<lambda>p. alpha p = 255) (pixels img_example)
   \<and> load_image env_example (py ''cards/a.jpg'') =
       Some (ImageReader \<lparr>isize = (1, 1), pixels = [(10, 20, 30)]\<rparr>)"
proof -
  have h1: "open_rgba env_example (py ''cards/a.jpg'') = Inr img_example"
    by (simp add: env_example_def)
  have h2: "wf_image img_example"
    by (simp add: wf_image_def img_example_def)
  have h3: "\<forall>p \<in> set (pixels img_example). alpha p = 255"
    by (simp add: img_example_def alpha_def)
  have "convert_RGB img_example = \<lparr>isize = (1, 1), pixels = [(10, 20, 30)]\<rparr>"
    by (simp add: convert_RGB_def img_example_def drop_alpha_def)
  with h1 h2 h3 opaque_load_identity [OF h1 h2 h3] show ?thesis
    by (simp add: list_all_iff)
qed

text \<open>
  C9. The entries are consumed once each and in order: on every page, the cell in row
  \<open>row\<close> and column \<open>col\<close> shows entry number \<open>page * 9 + row * 3 + col\<close> when there
  is such an entry and is blank otherwise; the pages have a cell for every entry; the
  counter ends at the number of entries, and it went up by one with each entry shown.
\<close>

theorem cards_consumed_in_order:
  assumes "create_pdf_from_folder env image_folder output_filename = Some (Inr out)"
  shows "length (out_loaded out) = length (out_paths out)
         \<and> (\<forall>page < length (document out).
               document out ! page =
                 concat (map (\<lambda>(row, col).
                     if page * cards_per_page + row * columns + col < length (out_loaded out)
                     then card_ops env
                            (snd (out_loaded out ! (page * cards_per_page + row * columns + col)))
                            (cell_x col) (cell_y row)
                     else [])
                   (List.product [0..<rows] [0..<columns]))
                 @ guide_ops)
         \<and> length (out_paths out) \<le> length (document out) * cards_per_page
         \<and> out_card_index out = length (out_paths out)
         \<and> out_progress out =
             map (\<lambda>k. (k + 1, length (out_paths out))) [0..<length (out_paths out)]"
proof -
  have len: "length (out_loaded out) = length (out_paths out)"
    by (simp add: run_returns(1) [OF assms])
  have pages: "document out ! page =
                 concat (map (\<lambda>(row, col).
                     if page * cards_per_page + row * columns + col < length (out_loaded out)
                     then card_ops env
                            (snd (out_loaded out ! (page * cards_per_page + row * columns + col)))
                            (cell_x col) (cell_y row)
                     else [])
                   (List.product [0..<rows] [0..<columns]))
                 @ guide_ops"
    if "page < length (document out)" for page
  proof -
    have "document out ! page = page_ops env (out_loaded out) page"
      using that by (simp add: run_returns(2) [OF assms])
    also have "\<dots> =
        concat (map (\<lambda>(row, col).
                     if page * cards_per_page + row * columns + col < length (out_loaded out)
                     then card_ops env
                            (snd (out_loaded out ! (page * cards_per_page + row * columns + col)))
                            (cell_x col) (cell_y row)
                     else [])
                   page_cells)
        @ guide_ops"
      by (simp only: page_ops_def cells_ops_page_cells)
    finally show ?thesis
      by (simp only: page_cells_def)
  qed
  have enough: "length (out_paths out) \<le> length (document out) * cards_per_page"
    by (simp add: run_returns(2) [OF assms] num_pages_enough)
  have "out_progress out =
             map (\<lambda>k. (k + 1, length (out_paths out))) [0..<length (out_paths out)]"
    by (simp add: run_returns(4) [OF assms])
  with len pages enough run_returns(3) [OF assms] show ?thesis
    by blast
qed

theorem cards_consumed_in_order_witness:
  "create_pdf_from_folder env_example (py ''cards'') (py ''cards.pdf'') =
     Some (Inr (out_example env_example))
   \<and> length (out_loaded (out_example env_example)) = 2
   \<and> document (out_example env_example) ! 0 =
       [DrawImage reader_example (cell_x 0) (cell_y 0) card_width card_height,
        Rect (cell_x 1) (cell_y 0) card_width card_height,
        DrawString (cell_x 1 + 5) (cell_y 0 + card_height / 2) error_label] @ guide_ops
   \<and> out_card_index (out_example env_example) = 2
   \<and> out_progress (out_example env_example) = [(1, 2), (2, 2)]
   \<and> (\<exists>out. create_pdf_from_folder env_ten (py ''cards'') (py ''cards.pdf'') = Some (Inr out)
          \<and> length (document out) = 2
          \<and> document out ! 1 =
              [Rect (cell_x 0) (cell_y 0) card_width card_height,
               DrawString (cell_x 0 + 5) (cell_y 0 + card_height / 2) error_label] @ guide_ops
          \<and> out_card_index out = 10)"
proof -
  have run: "create_pdf_from_folder env_example (py ''cards'') (py ''cards.pdf'') =
          Some (Inr (out_example env_example))"
    by (intro run_example) (simp_all add: env_example_def)
  note order = cards_consumed_in_order [OF run]
  have "0 < length (document (out_example env_example))"
    by (simp add: document_example)
  with order have "document (out_example env_example) ! 0 =
                 concat (map (\<lambda>(row, col).
                     if 0 * cards_per_page + row * columns + col
                          < length (out_loaded (out_example env_example))
                     then card_ops env_example
                            (snd (out_loaded (out_example env_example)
                                    ! (0 * cards_per_page + row * columns + col)))
                            (cell_x col) (cell_y row)
                     else [])
                   (List.product [0..<rows] [0..<columns]))
                 @ guide_ops"
    by blast
  then have first: "document (out_example env_example) ! 0 =
       [DrawImage reader_example (cell_x 0) (cell_y 0) card_width card_height,
        Rect (cell_x 1) (cell_y 0) card_width card_height,
        DrawString (cell_x 1 + 5) (cell_y 0 + card_height / 2) error_label] @ guide_ops"
    by (simp add: document_example loaded_example_def rows_def columns_def upt_rec
        card_ops_def placeholder_ops_def env_example_def)
  have small: "length (out_loaded (out_example env_example)) = 2"
    "out_card_index (out_example env_example) = 2"
    "out_progress (out_example env_example) = [(1, 2), (2, 2)]"
    by (simp_all add: out_example_def loaded_example_def)
  have ten: "listdir env_ten (py ''cards'') = Inr dir_ten" "writable env_ten (py ''cards.pdf'')"
    by (simp_all add: env_ten_def)
  have accepts: "console_accepts env_ten (py ''cards.pdf'')"
    by (rule console_accepts_all) (simp add: env_ten_def)
  obtain out where run10:
    "create_pdf_from_folder env_ten (py ''cards'') (py ''cards.pdf'') = Some (Inr out)"
    using run_completes [OF ten accepts] by blast
  note order10 = cards_consumed_in_order [OF run10]
  have paths: "out_paths out = paths_ten"
    using run_returns(5) [OF run10] by (simp add: list_images_ten)
  have "load_image env_ten p = None" for p
    by (simp add: load_image_def env_ten_def)
  then have loaded: "out_loaded out = map (\<lambda>p. (p, None)) paths_ten"
    by (simp add: run_returns(1) [OF run10] paths)
  have pages: "length (document out) = 2"
    by (simp add: run_returns(2) [OF run10] paths paths_ten_def num_pages_def cards_per_page_def)
  then have "1 < length (document out)"
    by simp
  with order10 have "document out ! 1 =
                 concat (map (\<lambda>(row, col).
                     if 1 * cards_per_page + row * columns + col < length (out_loaded out)
                     then card_ops env_ten
                            (snd (out_loaded out ! (1 * cards_per_page + row * columns + col)))
                            (cell_x col) (cell_y row)
                     else [])
                   (List.product [0..<rows] [0..<columns]))
                 @ guide_ops"
    by blast
  then have second: "document out ! 1 =
              [Rect (cell_x 0) (cell_y 0) card_width card_height,
               DrawString (cell_x 0 + 5) (cell_y 0 + card_height / 2) error_label] @ guide_ops"
    by (simp add: loaded paths_ten_def rows_def columns_def cards_per_page_def upt_rec
        card_ops_def placeholder_ops_def)
  have "out_card_index out = 10"
    using order10 by (simp add: paths paths_ten_def)
  with run first small run10 pages second show ?thesis
    by blast
qed

text \<open>
  C10. When drawing a loaded image raises, the cell holds the outline of a card and the
  label of six characters U+52A0, U+8F7D, U+56FE, U+7247, U+9519, U+8BEF instead, and
  the run goes on: over a readable folder with a writable output file, on a console
  that accepts its messages, it returns with all pages and with every entry consumed.
\<close>

theorem draw_failure_placeholder:
  assumes "listdir env image_folder = Inr names" and "writable env output_filename"
      and "console_accepts env output_filename"
  shows "\<exists>out. create_pdf_from_folder env image_folder output_filename = Some (Inr out)
           \<and> length (document out) = max 1 (nat \<lceil>rat_of_nat (length (out_paths out)) / 9\<rceil>)
           \<and> out_card_index out = length (out_paths out)
           \<and> (\<forall>k img. k < length (out_paths out) \<and> snd (out_loaded out ! k) = Some img
                    \<and> draw_raises env img \<longrightarrow>
                 (\<exists>before after.
                    document out ! (k div cards_per_page) =
                      before
                      @ [Rect (cell_x (k mod columns)) (cell_y (k mod cards_per_page div columns))
                           card_width card_height,
                         DrawString (cell_x (k mod columns) + 5)
                           (cell_y (k mod cards_per_page div columns) + card_height / 2)
                           [0x52A0, 0x8F7D, 0x56FE, 0x7247, 0x9519, 0x8BEF]]
                      @ after))"
proof -
  obtain out where out: "create_pdf_from_folder env image_folder output_filename = Some (Inr out)"
    using run_completes [OF assms] by blast
  note loaded = run_returns(1) [OF out]
  note doc = run_returns(2) [OF out]
  have pages: "length (document out) =
      max 1 (nat \<lceil>rat_of_nat (length (out_paths out)) / 9\<rceil>)"
    by (simp add: doc num_pages_ceiling)
  have cell: "\<exists>before after.
            document out ! (k div cards_per_page) =
              before
              @ [Rect (cell_x (k mod columns)) (cell_y (k mod cards_per_page div columns))
                   card_width card_height,
                 DrawString (cell_x (k mod columns) + 5)
                   (cell_y (k mod cards_per_page div columns) + card_height / 2)
                   [0x52A0, 0x8F7D, 0x56FE, 0x7247, 0x9519, 0x8BEF]]
              @ after"
    if k: "k < length (out_paths out)" and img: "snd (out_loaded out ! k) = Some img"
      and raises: "draw_raises env img"
    for k img
  proof -
    have len: "k < length (out_loaded out)"
      using k by (simp add: loaded)
    have "document out ! (k div cards_per_page) =
        page_ops env (out_loaded out) (k div cards_per_page)"
      using entry_page_exists [OF k] by (simp add: doc)
    moreover obtain before after where
      "page_ops env (out_loaded out) (k div cards_per_page) =
         before @ card_ops env (snd (out_loaded out ! k))
                    (cell_x (k mod columns)) (cell_y (k mod cards_per_page div columns)) @ after"
      using page_shows_entry [OF len] by blast
    ultimately have "document out ! (k div cards_per_page) =
              before
              @ [Rect (cell_x (k mod columns)) (cell_y (k mod cards_per_page div columns))
                   card_width card_height,
                 DrawString (cell_x (k mod columns) + 5)
                   (cell_y (k mod cards_per_page div columns) + card_height / 2)
                   [0x52A0, 0x8F7D, 0x56FE, 0x7247, 0x9519, 0x8BEF]]
              @ after"
      by (simp add: img raises card_ops_def placeholder_ops_def error_label_def)
    then show ?thesis by blast
  qed
  from out pages cell run_returns(3) [OF out] show ?thesis
    by blast
qed

theorem draw_failure_placeholder_witness:
  "listdir env_draw_fails (py ''cards'') = Inr dir_example
   \<and> writable env_draw_fails (py ''cards.pdf'')
   \<and> console_accepts env_draw_fails (py ''cards.pdf'')
   \<and> draw_raises env_draw_fails reader_example
   \<and> (\<exists>out. create_pdf_from_folder env_draw_fails (py ''cards'') (py ''cards.pdf'') = Some (Inr out)
          \<and> length (document out) = 1
          \<and> out_card_index out = 2
          \<and> snd (out_loaded out ! 0) = Some reader_example
          \<and> (\<exists>before after.
                document out ! 0 =
                  before
                  @ [Rect (cell_x 0) (cell_y 0) card_width card_height,
                     DrawString (cell_x 0 + 5) (cell_y 0 + card_height / 2) [0x52A0, 0x8F7D, 0x56FE, 0x7247, 0x9519, 0x8BEF]]
                  @ after))"
proof -
  have h1: "listdir env_draw_fails (py ''cards'') = Inr dir_example"
    by (simp add: env_draw_fails_def env_example_def)
  have h2: "writable env_draw_fails (py ''cards.pdf'')"
    by (simp add: env_draw_fails_def env_example_def)
  have h3: "console_accepts env_draw_fails (py ''cards.pdf'')"
    by (rule console_accepts_all) (simp add: env_draw_fails_def env_example_def)
  have r: "draw_raises env_draw_fails reader_example"
    by (simp add: env_draw_fails_def)
  from draw_failure_placeholder [OF h1 h2 h3] obtain out where
    run: "create_pdf_from_folder env_draw_fails (py ''cards'') (py ''cards.pdf'') = Some (Inr out)"
    and cells: "\<forall>k img. k < length (out_paths out) \<and> snd (out_loaded out ! k) = Some img
                    \<and> draw_raises env_draw_fails img \<longrightarrow>
                 (\<exists>before after.
                    document out ! (k div cards_per_page) =
                      before
                      @ [Rect (cell_x (k mod columns)) (cell_y (k mod cards_per_page div columns))
                           card_width card_height,
                         DrawString (cell_x (k mod columns) + 5)
                           (cell_y (k mod cards_per_page div columns) + card_height / 2)
                           [0x52A0, 0x8F7D, 0x56FE, 0x7247, 0x9519, 0x8BEF]]
                      @ after)"
    by blast
  have "create_pdf_from_folder env_draw_fails (py ''cards'') (py ''cards.pdf'') =
          Some (Inr (out_example env_draw_fails))"
    by (intro run_example) (simp_all add: env_draw_fails_def env_example_def)
  with run have out: "out = out_example env_draw_fails"
    by simp
  have p: "0 < length (out_paths out)" "snd (out_loaded out ! 0) = Some reader_example"
    by (simp_all add: out document_example paths_example_def loaded_example_def)
  have facts: "length (document out) = 1" "out_card_index out = 2"
    by (simp_all add: out out_example_def)
  have idx: "0 div cards_per_page = 0" "0 mod columns = 0" "0 mod cards_per_page div columns = 0"
    by simp_all
  from cells p r have "\<exists>before after.
                    document out ! (0 div cards_per_page) =
                      before
                      @ [Rect (cell_x (0 mod columns)) (cell_y (0 mod cards_per_page div columns))
                           card_width card_height,
                         DrawString (cell_x (0 mod columns) + 5)
                           (cell_y (0 mod cards_per_page div columns) + card_height / 2)
                           [0x52A0, 0x8F7D, 0x56FE, 0x7247, 0x9519, 0x8BEF]]
                      @ after"
    by metis
  then have "\<exists>before after.
                document out ! 0 =
                  before
                  @ [Rect (cell_x 0) (cell_y 0) card_width card_height,
                     DrawString (cell_x 0 + 5) (cell_y 0 + card_height / 2) [0x52A0, 0x8F7D, 0x56FE, 0x7247, 0x9519, 0x8BEF]]
                  @ after"
    by (simp only: idx)
  with h1 h2 h3 r run facts p(2) show ?thesis
    by blast
qed

end
